theory Spec2Isabelle
  imports Complex_Main "HOL-Library.Word" "HOL-Library.AList" "HOL-Library.Sublist"
begin

unbundle bit_operations_syntax

section \<open>JavaScript values\<close>

text \<open>
  The daemon receives its requests, callback bodies and drop files as JSON. A parsed JSON
  text is a value of \<open>json\<close>; a property that is absent (JavaScript's \<open>undefined\<close>) is
  \<open>None\<close> of \<open>json option\<close>. Objects are association lists in key order, numbers are the
  exact rational value of the double that \<open>JSON.parse\<close> produced.
\<close>

datatype json =
    JNull
  | JBool bool
  | JNumber rat
  | JString string
  | JArray "json list"
  | JObject "(string \<times> json) list"

text \<open>An object literal as the code builds it: a property may hold \<open>undefined\<close>.\<close>

type_synonym obj = "(string \<times> json option) list"

text \<open>
  Truthiness, as \<open>!x\<close> and \<open>!!x\<close> read it: \<open>undefined\<close>, \<open>null\<close>, \<open>false\<close>, \<open>0\<close>
  and the empty string are falsy; every other value, every array and every object is truthy.
\<close>

fun truthy :: "json option \<Rightarrow> bool" where
  "truthy None = False"
| "truthy (Some JNull) = False"
| "truthy (Some (JBool b)) = b"
| "truthy (Some (JNumber n)) = (n \<noteq> 0)"
| "truthy (Some (JString s)) = (s \<noteq> [])"
| "truthy (Some (JArray xs)) = True"
| "truthy (Some (JObject kvs)) = True"

text \<open>
  Property access \<open>data.key\<close> on a parsed value: on \<open>null\<close> it throws a TypeError
  (\<open>Inl\<close>); on an object it is the property or \<open>undefined\<close>; on a boolean, number,
  string or array none of the keys the daemon reads (\<open>requestId\<close>, \<open>approved\<close>) exists,
  so the result is \<open>undefined\<close>.
\<close>

fun getProp :: "json \<Rightarrow> string \<Rightarrow> string + json option" where
  "getProp JNull k = Inl (''Cannot read properties of null (reading '' @ k @ '')'')"
| "getProp (JObject kvs) k = Inr (map_of kvs k)"
| "getProp (JBool b) k = Inr None"
| "getProp (JNumber n) k = Inr None"
| "getProp (JString s) k = Inr None"
| "getProp (JArray xs) k = Inr None"

text \<open>String methods of the source, on \<open>string\<close>.\<close>

definition startsWith :: "string \<Rightarrow> string \<Rightarrow> bool" where
  "startsWith s p = prefix p s"

definition endsWith :: "string \<Rightarrow> string \<Rightarrow> bool" where
  "endsWith s p = suffix p s"

section \<open>Runtime\<close>

text \<open>
  What the JavaScript runtime supplies and the daemon calls: \<open>JSON.parse\<close> (\<open>None\<close> when
  it throws a SyntaxError), the conversion of a number to a string that a template literal
  applies, \<open>String.prototype.toLowerCase\<close>, \<open>String.prototype.trim\<close> and the addition
  of two numbers.
\<close>

record runtime =
  JSON_parse :: "string \<Rightarrow> json option"
  numberToString :: "rat \<Rightarrow> string"
  toLowerCase :: "string \<Rightarrow> string"
  trim :: "string \<Rightarrow> string"
  numberAdd :: "int \<Rightarrow> int \<Rightarrow> int"

section \<open>Configuration and collaborators\<close>

record standing_approval =
  sa_item :: string
  reasonMatch :: string
  sa_note :: "json option"

record config =
  cacheTTL :: int
  approvalTimeoutMs :: int
  openVaults :: "string list"
  gatedVaults :: "string list"
  standingApprovals :: "standing_approval list"

record parsed_uri =
  vault :: string
  item :: string
  field :: string

text \<open>
  The provider contract (\<open>BaseProvider\<close>): \<open>parseUri\<close> returns the components, \<open>null\<close>
  (\<open>None\<close>) or throws (\<open>Inl\<close>); \<open>read uri elevated\<close> returns the secret (\<open>Inr\<close>) or throws
  with a message (\<open>Inl\<close>). The flag is \<open>options.useServiceAccount\<close>; a call
  \<open>provider.read(uri)\<close> leaves \<open>options\<close> at its default \<open>{}\<close>, where the flag is
  \<open>undefined\<close>, that is not set: \<open>False\<close>.
\<close>

record provider =
  provider_name :: string
  parseUri :: "string \<Rightarrow> string + parsed_uri option"
  provider_read :: "string \<Rightarrow> bool \<Rightarrow> string + string"

text \<open>
  The channel contract (\<open>BaseChannel\<close>): \<open>sendApprovalRequest\<close> returns a message
  reference or throws with a message.
\<close>

record channel =
  channel_name :: string
  sendApprovalRequest :: "obj \<Rightarrow> string + json"

record daemon =
  config :: config
  provider :: provider
  channels :: "channel list"

definition OPEN_VAULTS :: "runtime \<Rightarrow> daemon \<Rightarrow> string set" where
  "OPEN_VAULTS rt d = set (map (toLowerCase rt) (openVaults (config d)))"

definition GATED_VAULTS :: "runtime \<Rightarrow> daemon \<Rightarrow> string set" where
  "GATED_VAULTS rt d = set (map (toLowerCase rt) (gatedVaults (config d)))"

definition STANDING_APPROVALS :: "daemon \<Rightarrow> standing_approval list" where
  "STANDING_APPROVALS d = standingApprovals (config d)"

section \<open>Standing approvals\<close>

text \<open>
  The \<open>for\<close> loop of \<open>matchesStandingApproval\<close> over the rules that are left, for a truthy
  reason. \<open>reason.startsWith\<close> exists on strings only: on any other truthy value the
  call throws a TypeError. \<open>pattern === reason\<close> is false for a reason that is no string.
\<close>

fun scanStandingApprovals ::
  "standing_approval list \<Rightarrow> string \<Rightarrow> json \<Rightarrow> string + standing_approval option" where
  "scanStandingApprovals [] it reason = Inr None"
| "scanStandingApprovals (sa # rest) it reason =
     (if sa_item sa \<noteq> it then scanStandingApprovals rest it reason
      else if endsWith (reasonMatch sa) ''*'' then
        (case reason of
           JString r \<Rightarrow>
             (if startsWith r (butlast (reasonMatch sa)) then Inr (Some sa)
              else scanStandingApprovals rest it reason)
         | _ \<Rightarrow> Inl ''reason.startsWith is not a function'')
      else if JString (reasonMatch sa) = reason then Inr (Some sa)
      else scanStandingApprovals rest it reason)"

definition matchesStandingApproval ::
  "daemon \<Rightarrow> string \<Rightarrow> json option \<Rightarrow> string + standing_approval option" where
  "matchesStandingApproval d it reason =
     (case reason of
        None \<Rightarrow> Inr None
      | Some r \<Rightarrow>
          (if \<not> truthy (Some r) then Inr None
           else scanStandingApprovals (STANDING_APPROVALS d) it r))"

text \<open>
  The rule of the specification, in its words: the items are equal, and the pattern equals
  the reason, or the pattern ends with \<open>*\<close> and the reason starts with the pattern minus
  that \<open>*\<close>.
\<close>

definition spec_rule_matches :: "string \<Rightarrow> string \<Rightarrow> standing_approval \<Rightarrow> bool" where
  "spec_rule_matches it reason sa =
     (sa_item sa = it \<and>
      (reasonMatch sa = reason \<or>
       (endsWith (reasonMatch sa) ''*'' \<and> prefix (butlast (reasonMatch sa)) reason)))"

section \<open>Broker state\<close>

record cache_entry =
  cached_value :: string
  expiresAt :: int

text \<open>
  An entry of \<open>pendingRequests\<close>: the \<open>resolve\<close> function of the promise that
  \<open>waitForApproval\<close> returned, its timeout and its poll interval, each named by a handle.
\<close>

record pending_entry =
  resolve :: nat
  timer :: nat
  pollInterval :: nat

text \<open>What the daemon does to the world, in the order it does it.\<close>

datatype effect =
    SetTimeout nat int
  | SetInterval nat int
  | ClearTimeout nat
  | ClearInterval nat
  | RegistrySet string
  | RegistryDelete string
  | ReadFile string
  | Unlink string
  | Fulfil nat bool
  | Reject nat string
  | AuditLog obj
  | ProviderRead string bool
  | SendApprovalRequest string obj
  | UpdateApprovalMessage string json bool obj

text \<open>
  The two \<open>Map\<close>s of the daemon and the files of \<open>PENDING_DIR\<close> (file name to content)
  are association lists in insertion order, with one pair per key.
\<close>

record broker =
  pendingRequests :: "(string \<times> pending_entry) list"
  cache :: "(string \<times> cache_entry) list"
  pendingDir :: "(string \<times> string) list"
  nextHandle :: nat
  effects :: "effect list"

definition emit :: "effect \<Rightarrow> broker \<Rightarrow> broker" where
  "emit e s = s\<lparr>effects := effects s @ [e]\<rparr>"

text \<open>
  \<open>audit.log(entry)\<close> appends one line; the \<open>timestamp\<close> that it puts in front of the
  entry's own fields is left out of the recorded entry.
\<close>

definition audit_log :: "obj \<Rightarrow> broker \<Rightarrow> broker" where
  "audit_log entry s = emit (AuditLog entry) s"

definition mapSize :: "('k \<times> 'v) list \<Rightarrow> nat" where
  "mapSize m = length (remdups (map fst m))"

section \<open>Cache\<close>

text \<open>\<open>now\<close> is the reading of \<open>Date.now()\<close>.\<close>

definition getCached :: "daemon \<Rightarrow> int \<Rightarrow> string \<Rightarrow> broker \<Rightarrow> string option \<times> broker" where
  "getCached d now u s =
     (if cacheTTL (config d) \<le> 0 then (None, s)
      else
        (case map_of (cache s) u of
           None \<Rightarrow> (None, s)
         | Some entry \<Rightarrow>
             (if now > expiresAt entry then (None, s\<lparr>cache := AList.delete u (cache s)\<rparr>)
              else (Some (cached_value entry), s))))"

text \<open>
  The expiry is the sum \<open>Date.now() + config.cacheTTL\<close> as the runtime adds numbers.
\<close>

definition setCache :: "runtime \<Rightarrow> daemon \<Rightarrow> int \<Rightarrow> string \<Rightarrow> string \<Rightarrow> broker \<Rightarrow> broker" where
  "setCache rt d now u v s =
     (if cacheTTL (config d) \<le> 0 then s
      else s\<lparr>cache :=
             AList.update u \<lparr>cached_value = v, expiresAt = numberAdd rt now (cacheTTL (config d))\<rparr>
               (cache s)\<rparr>)"

section \<open>Approval flow\<close>

text \<open>\<open>crypto.randomBytes(8).toString('hex')\<close>: the 64 random bits as 16 hex digits.\<close>

definition hexDigit :: "nat \<Rightarrow> char" where
  "hexDigit n = ''0123456789abcdef'' ! (n mod 16)"

definition generateRequestId :: "64 word \<Rightarrow> string" where
  "generateRequestId w = map (\<lambda>i. hexDigit (unat (drop_bit (4 * (15 - i)) w AND 15))) [0..<16]"

definition pendingFile :: "string \<Rightarrow> string" where
  "pendingFile requestId = requestId @ ''.json''"

text \<open>\<open>fs.unlinkSync\<close> in \<open>PENDING_DIR\<close>: throws (\<open>Inl\<close>) when the file does not exist.\<close>

definition unlinkSync :: "string \<Rightarrow> broker \<Rightarrow> string + broker" where
  "unlinkSync f s =
     (case map_of (pendingDir s) f of
        None \<Rightarrow> Inl ''ENOENT''
      | Some text \<Rightarrow> Inr (emit (Unlink f) (s\<lparr>pendingDir := AList.delete f (pendingDir s)\<rparr>)))"

text \<open>
  \<open>cleanup\<close>. The test \<open>if (pending.pollInterval)\<close> is on the interval object that
  \<open>waitForApproval\<close> stored, which is always truthy. The final unlink is in a \<open>try\<close> with
  an empty \<open>catch\<close>.
\<close>

definition cleanup :: "string \<Rightarrow> broker \<Rightarrow> broker" where
  "cleanup requestId s =
     (case map_of (pendingRequests s) requestId of
        None \<Rightarrow> s
      | Some pending \<Rightarrow>
          (let s1 = emit (ClearTimeout (timer pending)) s;
               s2 = emit (ClearInterval (pollInterval pending)) s1;
               s3 = emit (RegistryDelete requestId)
                      (s2\<lparr>pendingRequests := AList.delete requestId (pendingRequests s2)\<rparr>)
           in case unlinkSync (pendingFile requestId) s3 of
                Inl ex \<Rightarrow> s3
              | Inr s4 \<Rightarrow> s4))"

definition resolveApproval :: "string \<Rightarrow> json option \<Rightarrow> broker \<Rightarrow> bool \<times> broker" where
  "resolveApproval requestId approved s =
     (case map_of (pendingRequests s) requestId of
        None \<Rightarrow> (False, s)
      | Some pending \<Rightarrow>
          (True, emit (Fulfil (resolve pending) (truthy approved)) (cleanup requestId s)))"

text \<open>
  \<open>waitForApproval\<close> creates the promise, the timeout and the poll interval and registers
  them; the result is the promise's handle and the new state.
\<close>

definition waitForApproval :: "daemon \<Rightarrow> string \<Rightarrow> broker \<Rightarrow> nat \<times> broker" where
  "waitForApproval d requestId s =
     (let h = nextHandle s;
          s1 = emit (SetTimeout (h + 1) (approvalTimeoutMs (config d))) (s\<lparr>nextHandle := h + 3\<rparr>);
          s2 = emit (SetInterval (h + 2) 500) s1;
          pending = \<lparr>resolve = h, timer = h + 1, pollInterval = h + 2\<rparr>
      in (h, emit (RegistrySet requestId)
               (s2\<lparr>pendingRequests := AList.update requestId pending (pendingRequests s2)\<rparr>)))"

definition timeoutMessage :: "runtime \<Rightarrow> daemon \<Rightarrow> string" where
  "timeoutMessage rt d =
     ''Approval timed out after '' @
       numberToString rt (of_int (approvalTimeoutMs (config d)) / 1000) @ ''s''"

text \<open>The callback of the timeout, for the promise \<open>h\<close> of its closure.\<close>

definition approvalTimeout :: "runtime \<Rightarrow> daemon \<Rightarrow> string \<Rightarrow> nat \<Rightarrow> broker \<Rightarrow> broker" where
  "approvalTimeout rt d requestId h s = emit (Reject h (timeoutMessage rt d)) (cleanup requestId s)"

text \<open>
  The callback of the poll interval \<open>interval\<close> that \<open>waitForApproval\<close> set up for
  \<open>requestId\<close>. Its whole body is in a \<open>try\<close> with an empty \<open>catch\<close>: when
  \<open>JSON.parse\<close> throws, nothing after it runs; when \<open>data.approved\<close> throws, the unlink
  and the \<open>clearInterval\<close> before it have run.
\<close>

definition pollTick :: "runtime \<Rightarrow> string \<Rightarrow> nat \<Rightarrow> broker \<Rightarrow> broker" where
  "pollTick rt requestId interval s =
     (let filePath = pendingFile requestId in
      case map_of (pendingDir s) filePath of
        None \<Rightarrow> s
      | Some text \<Rightarrow>
          (let s1 = emit (ReadFile filePath) s in
           case JSON_parse rt text of
             None \<Rightarrow> s1
           | Some data \<Rightarrow>
               (case unlinkSync filePath s1 of
                  Inl ex \<Rightarrow> s1
                | Inr s2 \<Rightarrow>
                    (let s3 = emit (ClearInterval interval) s2 in
                     case getProp data ''approved'' of
                       Inl ex \<Rightarrow> s3
                     | Inr approved \<Rightarrow> snd (resolveApproval requestId approved s3)))))"

section \<open>HTTP callback\<close>

definition errorResponse :: "string \<Rightarrow> json" where
  "errorResponse msg = JObject [(''error'', JString msg)]"

definition valueResponse :: "string \<Rightarrow> json" where
  "valueResponse v = JObject [(''value'', JString v)]"

text \<open>
  The \<open>end\<close> handler of \<open>POST /callback\<close> on the body received: the status code and the
  JSON written. A \<open>requestId\<close> that is no string is a key that \<open>pendingRequests\<close>, whose
  keys are strings, does not hold, so \<open>resolveApproval\<close> returns false for it.
\<close>

definition callbackEndpoint :: "runtime \<Rightarrow> string \<Rightarrow> broker \<Rightarrow> (nat \<times> json) \<times> broker" where
  "callbackEndpoint rt body s =
     (case JSON_parse rt body of
        None \<Rightarrow> ((400, errorResponse ''Invalid JSON''), s)
      | Some data \<Rightarrow>
          (case getProp data ''requestId'' of
             Inl ex \<Rightarrow> ((400, errorResponse ''Invalid JSON''), s)
           | Inr requestId \<Rightarrow>
               (if \<not> truthy requestId then ((400, errorResponse ''Missing requestId''), s)
                else
                  (case getProp data ''approved'' of
                     Inl ex \<Rightarrow> ((400, errorResponse ''Invalid JSON''), s)
                   | Inr approved \<Rightarrow>
                       (let (resolved, s') =
                              (case requestId of
                                 Some (JString rid) \<Rightarrow> resolveApproval rid approved s
                               | _ \<Rightarrow> (False, s))
                        in ((200, JObject [(''ok'', JBool True), (''resolved'', JBool resolved)]),
                            s'))))))"

section \<open>Request handling\<close>

text \<open>
  A request of the local transport: \<open>action\<close> and \<open>uri\<close> are strings when present,
  \<open>reason\<close> is whatever JSON value the caller sent.
\<close>

record request =
  action :: "string option"
  uri :: "string option"
  reason :: "json option"

text \<open>
  What one call of the handler gets from outside: the random bytes of the request id, the
  two readings of \<open>Date.now()\<close> (at the cache lookup and at the cache store), how the
  pending request is settled while the handler is suspended in \<open>await waitForApproval\<close>,
  and \<open>process.uptime()\<close>.
\<close>

datatype resolution =
    Settled "json option"
  | TimedOut

record env =
  randomBytes :: "64 word"
  lookupTime :: int
  storeTime :: int
  resolution :: resolution
  processUptime :: rat

abbreviation str :: "string \<Rightarrow> json option" where
  "str x \<equiv> Some (JString x)"

definition readFields :: "string \<Rightarrow> parsed_uri \<Rightarrow> obj" where
  "readFields u parsed =
     [(''uri'', str u), (''vault'', str (vault parsed)), (''item'', str (item parsed)),
      (''field'', str (field parsed))]"

text \<open>The open branch of \<open>handleRead\<close>.\<close>

definition openRead :: "daemon \<Rightarrow> string \<Rightarrow> parsed_uri \<Rightarrow> broker \<Rightarrow> (string + json) \<times> broker" where
  "openRead d u parsed s =
     (let s1 = audit_log ((''action'', str ''read'') # readFields u parsed @
                          [(''type'', str ''open''), (''result'', str ''allowed'')]) s;
          s2 = emit (ProviderRead u False) s1
      in case provider_read (provider d) u False of
           Inr v \<Rightarrow> (Inr (valueResponse v), s2)
         | Inl msg \<Rightarrow>
             (Inr (errorResponse msg),
              audit_log [(''action'', str ''read_error''), (''uri'', str u), (''error'', str msg)] s2))"

text \<open>The branch of a matching standing approval.\<close>

definition standingRead ::
  "daemon \<Rightarrow> string \<Rightarrow> parsed_uri \<Rightarrow> json option \<Rightarrow> standing_approval \<Rightarrow> broker
   \<Rightarrow> (string + json) \<times> broker" where
  "standingRead d u parsed rsn standing s =
     (let s1 = audit_log ((''action'', str ''read'') # readFields u parsed @
                          [(''type'', str ''gated''), (''result'', str ''standing_approval''),
                           (''standingNote'', sa_note standing), (''reason'', rsn)]) s;
          s2 = emit (ProviderRead u True) s1
      in case provider_read (provider d) u True of
           Inr v \<Rightarrow>
             (Inr (valueResponse v),
              audit_log ((''action'', str ''read'') # readFields u parsed @
                         [(''type'', str ''gated''), (''result'', str ''standing_approved_read'')]) s2)
         | Inl msg \<Rightarrow>
             (Inr (errorResponse msg),
              audit_log [(''action'', str ''read_error''), (''uri'', str u), (''error'', str msg)] s2))"

text \<open>
  The loop over the channels that sends the prompt: a reference is kept for each channel
  that answered, a \<open>channel_error\<close> is audited for each that threw.
\<close>

fun sendToChannels ::
  "channel list \<Rightarrow> obj \<Rightarrow> string \<Rightarrow> broker \<Rightarrow> (channel \<times> json) list \<times> broker" where
  "sendToChannels [] prompt requestId s = ([], s)"
| "sendToChannels (c # cs) prompt requestId s =
     (let s1 = emit (SendApprovalRequest (channel_name c) prompt) s in
      case sendApprovalRequest c prompt of
        Inr ref \<Rightarrow>
          (let (refs, s2) = sendToChannels cs prompt requestId s1 in ((c, ref) # refs, s2))
      | Inl msg \<Rightarrow>
          sendToChannels cs prompt requestId
            (audit_log [(''action'', str ''channel_error''), (''channel'', str (channel_name c)),
                        (''requestId'', str requestId), (''error'', str msg)] s1))"

text \<open>The loop that updates every sent message; what a channel throws is swallowed.\<close>

fun updateChannels :: "(channel \<times> json) list \<Rightarrow> bool \<Rightarrow> obj \<Rightarrow> broker \<Rightarrow> broker" where
  "updateChannels [] approved info s = s"
| "updateChannels ((c, ref) # rest) approved info s =
     updateChannels rest approved info
       (emit (UpdateApprovalMessage (channel_name c) ref approved info) s)"

text \<open>After the approval: the elevated read, the cache store and the audit.\<close>

definition approvedRead ::
  "runtime \<Rightarrow> daemon \<Rightarrow> env \<Rightarrow> string \<Rightarrow> parsed_uri \<Rightarrow> json option \<Rightarrow> string \<Rightarrow> broker
   \<Rightarrow> (string + json) \<times> broker" where
  "approvedRead rt d e u parsed rsn requestId s =
     (let s1 = emit (ProviderRead u True) s in
      case provider_read (provider d) u True of
        Inr v \<Rightarrow>
          (Inr (valueResponse v),
           audit_log ((''action'', str ''read'') # (''requestId'', str requestId) #
                      readFields u parsed @
                      [(''reason'', rsn), (''type'', str ''gated''), (''result'', str ''approved_read'')])
             (setCache rt d (storeTime e) u v s1))
      | Inl msg \<Rightarrow>
          (Inr (errorResponse msg),
           audit_log [(''action'', str ''read_error''), (''requestId'', str requestId),
                      (''uri'', str u), (''error'', str msg)] s1))"

text \<open>
  From the new request id to the response: the \<open>request\<close> audit, the prompts, the wait
  and its outcome. While the handler is suspended the request is settled once: by
  \<open>resolveApproval\<close> (a callback, the poll or the shutdown) or by its timeout.
\<close>

definition approvalFlow ::
  "runtime \<Rightarrow> daemon \<Rightarrow> env \<Rightarrow> string \<Rightarrow> parsed_uri \<Rightarrow> json option \<Rightarrow> broker
   \<Rightarrow> (string + json) \<times> broker" where
  "approvalFlow rt d e u parsed rsn s =
     (let requestId = generateRequestId (randomBytes e);
          s1 = audit_log ((''action'', str ''request'') # (''requestId'', str requestId) #
                          readFields u parsed @
                          [(''reason'', rsn), (''type'', str ''gated''), (''result'', str ''pending'')]) s;
          prompt = [(''requestId'', str requestId), (''item'', str (item parsed)),
                    (''field'', str (field parsed)), (''vault'', str (vault parsed)),
                    (''reason'', rsn)];
          info = [(''item'', str (item parsed)), (''field'', str (field parsed)),
                  (''vault'', str (vault parsed))];
          (messageRefs, s2) = sendToChannels (channels d) prompt requestId s1
      in if length messageRefs = 0 \<and> length (channels d) > 0
         then (Inr (errorResponse ''Failed to send approval request to any channel''), s2)
         else
           (let (h, s3) = waitForApproval d requestId s2 in
            case resolution e of
              Settled answer \<Rightarrow>
                (let s4 = snd (resolveApproval requestId answer s3);
                     approved = truthy answer;
                     s5 = updateChannels messageRefs approved info s4
                 in if \<not> approved
                    then (Inr (errorResponse ''Request denied by operator''),
                          audit_log ((''action'', str ''denied'') # (''requestId'', str requestId) #
                                     readFields u parsed @ [(''reason'', rsn)]) s5)
                    else approvedRead rt d e u parsed rsn requestId
                           (audit_log ((''action'', str ''approved'') #
                                       (''requestId'', str requestId) #
                                       readFields u parsed @ [(''reason'', rsn)]) s5))
            | TimedOut \<Rightarrow>
                (let s4 = approvalTimeout rt d requestId h s3;
                     s5 = updateChannels messageRefs False info s4
                 in (Inr (errorResponse (timeoutMessage rt d)),
                     audit_log [(''action'', str ''timeout''), (''requestId'', str requestId),
                                (''uri'', str u), (''reason'', rsn)] s5))))"

text \<open>The gated branch of \<open>handleRead\<close>.\<close>

definition gatedRead ::
  "runtime \<Rightarrow> daemon \<Rightarrow> env \<Rightarrow> string \<Rightarrow> parsed_uri \<Rightarrow> json option \<Rightarrow> broker
   \<Rightarrow> (string + json) \<times> broker" where
  \<open>gatedRead rt d e u parsed rsn s =
     (if \<not> truthy rsn
      then (Inr (errorResponse ''Reason is REQUIRED for gated vault items. Pass --reason "..."''), s)
      else
        (case matchesStandingApproval d (item parsed) rsn of
           Inl ex \<Rightarrow> (Inl ex, s)
         | Inr (Some standing) \<Rightarrow> standingRead d u parsed rsn standing s
         | Inr None \<Rightarrow>
             (case getCached d (lookupTime e) u s of
                (Some cached, s1) \<Rightarrow>
                  (Inr (valueResponse cached),
                   audit_log ((''action'', str ''read'') # readFields u parsed @
                              [(''type'', str ''gated''), (''result'', str ''cache_hit'')]) s1)
              | (None, s1) \<Rightarrow> approvalFlow rt d e u parsed rsn s1)))\<close>

text \<open>
  \<open>handleRead\<close>. The result is the response the promise is fulfilled with (\<open>Inr\<close>) or
  the message of the error it is rejected with (\<open>Inl\<close>).
\<close>

definition handleRead ::
  "runtime \<Rightarrow> daemon \<Rightarrow> env \<Rightarrow> request \<Rightarrow> broker \<Rightarrow> (string + json) \<times> broker" where
  \<open>handleRead rt d e req s =
     (case uri req of
        None \<Rightarrow> (Inr (errorResponse ''Missing "uri" field''), s)
      | Some u \<Rightarrow>
          (if u = [] then (Inr (errorResponse ''Missing "uri" field''), s)
           else
             (case parseUri (provider d) u of
                Inl ex \<Rightarrow> (Inl ex, s)
              | Inr None \<Rightarrow> (Inr (errorResponse (''Invalid URI: '' @ u)), s)
              | Inr (Some parsed) \<Rightarrow>
                  (let vaultLower = toLowerCase rt (vault parsed) in
                   if vaultLower \<in> OPEN_VAULTS rt d then openRead d u parsed s
                   else if vaultLower \<in> GATED_VAULTS rt d then gatedRead rt d e u parsed (reason req) s
                   else (Inr (errorResponse (''Vault "'' @ vault parsed @
                                             ''" is not configured as open or gated'')), s)))))\<close>

definition handleRequest ::
  "runtime \<Rightarrow> daemon \<Rightarrow> env \<Rightarrow> request \<Rightarrow> broker \<Rightarrow> (string + json) \<times> broker" where
  "handleRequest rt d e req s =
     (if action req = Some ''read'' then handleRead rt d e req s
      else if action req = Some ''ping'' then
        (Inr (JObject [(''status'', JString ''ok''),
                       (''pending'', JNumber (of_nat (mapSize (pendingRequests s))))]), s)
      else if action req = Some ''status'' then
        (Inr (JObject [(''status'', JString ''running''),
                       (''pending'', JNumber (of_nat (mapSize (pendingRequests s)))),
                       (''cacheSize'', JNumber (of_nat (mapSize (cache s)))),
                       (''uptime'', JNumber (of_int \<lfloor>processUptime e\<rfloor>)),
                       (''channels'', JArray (map (\<lambda>c. JString (channel_name c)) (channels d))),
                       (''provider'', JString (provider_name (provider d)))]), s)
      else (Inr (errorResponse (''Unknown action: '' @
                   (case action req of None \<Rightarrow> ''undefined'' | Some a \<Rightarrow> a))), s))"

section \<open>Local transport\<close>

text \<open>
  One connection of \<open>SocketServer\<close>. The handler is the constructor's parameter, an
  asynchronous function: a call returns a promise, and the callbacks that \<open>then\<close> and
  \<open>catch\<close> attach run when the promise settles, never inside the loop that made the call.
  \<open>received\<close> counts the request lines so far and numbers them; \<open>inflight\<close> holds the
  requests whose promise has not settled; \<open>written\<close> holds, in the order of the calls of
  \<open>conn.write\<close>, the number of the request answered and the JSON written as one line.
\<close>

record conn =
  buf :: string
  received :: nat
  inflight :: "(nat \<times> json) list"
  written :: "(nat \<times> json) list"

definition newConn :: conn where
  "newConn = \<lparr>buf = [], received = 0, inflight = [], written = []\<rparr>"

definition newline :: char where
  "newline = CHR 0x0A"

fun indexOf :: "string \<Rightarrow> char \<Rightarrow> nat option" where
  "indexOf [] c = None"
| "indexOf (x # xs) c = (if x = c then Some 0 else map_option Suc (indexOf xs c))"

text \<open>
  The \<open>while\<close> loop of the \<open>data\<close> handler over the lines that are complete in \<open>buf\<close>:
  a blank line is skipped, a line that is no JSON is answered at once, any other line is
  handed to the handler.
\<close>

function drainLines :: "runtime \<Rightarrow> conn \<Rightarrow> conn" where
  "drainLines rt c =
     (case indexOf (buf c) newline of
        None \<Rightarrow> c
      | Some idx \<Rightarrow>
          (let line = take idx (buf c);
               c1 = c\<lparr>buf := drop (idx + 1) (buf c)\<rparr>
           in if trim rt line = [] then drainLines rt c1
              else
                (case JSON_parse rt line of
                   None \<Rightarrow>
                     drainLines rt
                       (c1\<lparr>written := written c1 @ [(received c1, errorResponse ''Invalid JSON'')],
                           received := received c1 + 1\<rparr>)
                 | Some req \<Rightarrow>
                     drainLines rt
                       (c1\<lparr>inflight := inflight c1 @ [(received c1, req)],
                           received := received c1 + 1\<rparr>))))"
  by pat_completeness auto
termination
proof (relation "measure (\<lambda>(rt, c). length (buf c))")
  have found: "indexOf xs ch = Some i \<Longrightarrow> i < length xs" for xs ch i
    by (induction xs arbitrary: i) (auto split: if_splits)
  show "wf (measure (\<lambda>(rt, c). length (buf c)))"
    by simp
  show "((rt, c1), (rt, c)) \<in> measure (\<lambda>(rt, c). length (buf c))"
    if "indexOf (buf c) newline = Some idx" and "c1 = c\<lparr>buf := drop (idx + 1) (buf c)\<rparr>"
    for rt c idx c1
    using found [OF that(1)] that(2) by simp
  show "((rt, c1\<lparr>written := w, received := n\<rparr>), (rt, c)) \<in> measure (\<lambda>(rt, c). length (buf c))"
    if "indexOf (buf c) newline = Some idx" and "c1 = c\<lparr>buf := drop (idx + 1) (buf c)\<rparr>"
    for rt c idx c1 w n
    using found [OF that(1)] that(2) by simp
  show "((rt, c1\<lparr>inflight := f, received := n\<rparr>), (rt, c)) \<in> measure (\<lambda>(rt, c). length (buf c))"
    if "indexOf (buf c) newline = Some idx" and "c1 = c\<lparr>buf := drop (idx + 1) (buf c)\<rparr>"
    for rt c idx c1 f n
    using found [OF that(1)] that(2) by simp
qed

declare drainLines.simps [simp del]

definition onData :: "runtime \<Rightarrow> string \<Rightarrow> conn \<Rightarrow> conn" where
  "onData rt chunk c = drainLines rt (c\<lparr>buf := buf c @ chunk\<rparr>)"

text \<open>
  The promise of request \<open>k\<close> settles: fulfilled with the handler's result, which is
  written, or rejected with an error, whose message is written.
\<close>

datatype outcome =
    Fulfilled json
  | Rejected string

definition reply :: "outcome \<Rightarrow> json" where
  "reply out = (case out of Fulfilled result \<Rightarrow> result | Rejected msg \<Rightarrow> errorResponse msg)"

definition settle :: "nat \<Rightarrow> outcome \<Rightarrow> conn \<Rightarrow> conn" where
  "settle k out c =
     (case map_of (inflight c) k of
        None \<Rightarrow> c
      | Some req \<Rightarrow>
          c\<lparr>inflight := AList.delete k (inflight c), written := written c @ [(k, reply out)]\<rparr>)"

datatype event =
    Data string
  | Settle nat outcome

fun step :: "runtime \<Rightarrow> event \<Rightarrow> conn \<Rightarrow> conn" where
  "step rt (Data chunk) c = onData rt chunk c"
| "step rt (Settle k out) c = settle k out c"

fun run :: "runtime \<Rightarrow> event list \<Rightarrow> conn \<Rightarrow> conn" where
  "run rt [] c = c"
| "run rt (ev # evs) c = run rt evs (step rt ev c)"

text \<open>The responses written so far answer the requests in the order of their receipt.\<close>

definition responsesInRequestOrder :: "conn \<Rightarrow> bool" where
  "responsesInRequestOrder c = sorted (map fst (written c))"

subsection \<open>What a connection has received, and what is due\<close>

text \<open>
  The complete lines of a text, that is its pieces that end with a line feed, and what is
  left behind the last line feed; \<open>cur\<close> is the piece that was begun before the text.
\<close>

fun linesOf :: "string \<Rightarrow> string \<Rightarrow> string list" where
  "linesOf cur [] = []"
| "linesOf cur (x # xs) = (if x = newline then cur # linesOf [] xs else linesOf (cur @ [x]) xs)"

fun restOf :: "string \<Rightarrow> string \<Rightarrow> string" where
  "restOf cur [] = cur"
| "restOf cur (x # xs) = (if x = newline then restOf [] xs else restOf (cur @ [x]) xs)"

text \<open>
  The requests of a text: its complete lines that are not blank, in the order of their
  receipt. The request at index \<open>k\<close> is the one numbered \<open>k\<close>.
\<close>

definition requestLines :: "runtime \<Rightarrow> string \<Rightarrow> string list" where
  "requestLines rt text = filter (\<lambda>l. trim rt l \<noteq> []) (linesOf [] text)"

text \<open>The text that the data events deliver, and the promises that the events settle.\<close>

fun chunksOf :: "event list \<Rightarrow> string" where
  "chunksOf [] = []"
| "chunksOf (Data chunk # evs) = chunk @ chunksOf evs"
| "chunksOf (Settle k out # evs) = chunksOf evs"

fun settlements :: "event list \<Rightarrow> (nat \<times> outcome) list" where
  "settlements [] = []"
| "settlements (Data chunk # evs) = settlements evs"
| "settlements (Settle k out # evs) = (k, out) # settlements evs"

text \<open>What the loop of the \<open>data\<close> handler does with one complete line, and with several.\<close>

definition feedLine :: "runtime \<Rightarrow> string \<Rightarrow> conn \<Rightarrow> conn" where
  "feedLine rt line c =
     (if trim rt line = [] then c
      else
        (case JSON_parse rt line of
           None \<Rightarrow> c\<lparr>written := written c @ [(received c, errorResponse ''Invalid JSON'')],
                       received := received c + 1\<rparr>
         | Some req \<Rightarrow> c\<lparr>inflight := inflight c @ [(received c, req)],
                          received := received c + 1\<rparr>))"

fun feedLines :: "runtime \<Rightarrow> string list \<Rightarrow> conn \<Rightarrow> conn" where
  "feedLines rt [] c = c"
| "feedLines rt (l # ls) c = feedLines rt ls (feedLine rt l c)"

text \<open>
  An event comes in turn when the response that it causes is due: the promise that settles
  is that of the oldest request in flight (or of none in flight, which writes nothing), and
  a chunk completes a line that is no JSON only while no request is in flight.
\<close>

fun linesInTurn :: "runtime \<Rightarrow> string list \<Rightarrow> conn \<Rightarrow> bool" where
  "linesInTurn rt [] c = True"
| "linesInTurn rt (l # ls) c =
     ((if trim rt l \<noteq> [] \<and> JSON_parse rt l = None then inflight c = [] else True)
      \<and> linesInTurn rt ls (feedLine rt l c))"

fun inTurn :: "runtime \<Rightarrow> event \<Rightarrow> conn \<Rightarrow> bool" where
  "inTurn rt (Data chunk) c = linesInTurn rt (linesOf [] (buf c @ chunk)) c"
| "inTurn rt (Settle k out) c =
     (case map_of (inflight c) k of
        None \<Rightarrow> True
      | Some req \<Rightarrow> map fst (take 1 (inflight c)) = [k])"

fun allInTurn :: "runtime \<Rightarrow> event list \<Rightarrow> conn \<Rightarrow> bool" where
  "allInTurn rt [] c = True"
| "allInTurn rt (ev # evs) c = (inTurn rt ev c \<and> allInTurn rt evs (step rt ev c))"

text \<open>
  Every request so far is accounted for: it was answered once, or it is in flight; an
  answer is the error for a line that is no JSON or the reply of a promise that settled.
  And the requests were answered in their order, the ones in flight coming last.
\<close>

definition accounted :: "runtime \<Rightarrow> (nat \<times> outcome) set \<Rightarrow> string list \<Rightarrow> conn \<Rightarrow> bool" where
  "accounted rt S ls c =
     (received c = length ls
      \<and> distinct (map fst (written c) @ map fst (inflight c))
      \<and> set (map fst (written c) @ map fst (inflight c)) = {0..<length ls}
      \<and> (\<forall>(k, resp) \<in> set (written c).
             (JSON_parse rt (ls ! k) = None \<and> resp = errorResponse ''Invalid JSON'')
           \<or> ((\<exists>req. JSON_parse rt (ls ! k) = Some req)
              \<and> (\<exists>out. (k, out) \<in> S \<and> resp = reply out)))
      \<and> (\<forall>(k, req) \<in> set (inflight c). JSON_parse rt (ls ! k) = Some req))"

definition inOrder :: "conn \<Rightarrow> bool" where
  "inOrder c = (map fst (written c) @ map fst (inflight c) = [0..<received c])"

text \<open>
  A response was written ahead of its turn: ahead of a request that is still in flight, or
  ahead of one that was answered since.
\<close>

definition overtaken :: "conn \<Rightarrow> bool" where
  "overtaken c =
     (\<not> sorted (map fst (written c))
      \<or> (\<exists>w \<in> set (map fst (written c)). \<exists>f \<in> set (map fst (inflight c)). f < w))"

section \<open>Observations and examples\<close>

text \<open>Resolving the same request again and again, and the calls of resolvers in a trace.\<close>

fun resolveAll :: "string \<Rightarrow> json option list \<Rightarrow> broker \<Rightarrow> broker" where
  "resolveAll requestId [] s = s"
| "resolveAll requestId (a # as) s = resolveAll requestId as (snd (resolveApproval requestId a s))"

fun fulfilments :: "effect list \<Rightarrow> (nat \<times> bool) list" where
  "fulfilments [] = []"
| "fulfilments (Fulfil h b # es) = (h, b) # fulfilments es"
| "fulfilments (e # es) = fulfilments es"

text \<open>
  A runtime for the examples. Its \<open>JSON.parse\<close> knows the JSON texts that the examples
  use and throws on every other text; the examples apply it to those texts and to texts
  that are no JSON. Its number conversion is that of 300, the seconds of the examples'
  approval timeout, and its addition is exact, as the addition of doubles is on the
  examples' numbers.
\<close>

definition demoParse :: "string \<Rightarrow> json option" where
  \<open>demoParse text =
     (if text = ''{"requestId":"00000000000000ff","approved":true}''
      then Some (JObject [(''requestId'', JString ''00000000000000ff''), (''approved'', JBool True)])
      else if text = ''{"requestId":"00000000000000ff"}''
      then Some (JObject [(''requestId'', JString ''00000000000000ff'')])
      else if text = ''{"approved":true}'' then Some (JObject [(''approved'', JBool True)])
      else if text = ''{"action":"read","uri":"op://Sec/k/f","reason":"check webhook"}''
      then Some (JObject [(''action'', JString ''read''), (''uri'', JString ''op://Sec/k/f''),
                          (''reason'', JString ''check webhook'')])
      else if text = ''{"action":"ping"}'' then Some (JObject [(''action'', JString ''ping'')])
      else if text = ''{"action":"status"}'' then Some (JObject [(''action'', JString ''status'')])
      else None)\<close>

text \<open>
  Lower-casing and trimming as they are on ASCII text, which is all the examples hold: the
  letters A to Z are folded, and tab, line feed, VT, FF, CR and space are white space.
\<close>

definition asciiLowerChar :: "char \<Rightarrow> char" where
  "asciiLowerChar c =
     (case map_of (zip ''ABCDEFGHIJKLMNOPQRSTUVWXYZ'' ''abcdefghijklmnopqrstuvwxyz'') c of
        Some l \<Rightarrow> l
      | None \<Rightarrow> c)"

definition asciiWhitespace :: "char \<Rightarrow> bool" where
  "asciiWhitespace c = (c \<in> set [CHR 0x09, CHR 0x0A, CHR 0x0B, CHR 0x0C, CHR 0x0D, CHR 0x20])"

definition asciiTrim :: "string \<Rightarrow> string" where
  "asciiTrim s = rev (dropWhile asciiWhitespace (rev (dropWhile asciiWhitespace s)))"

definition demoRuntime :: runtime where
  "demoRuntime =
     \<lparr>JSON_parse = demoParse, numberToString = (\<lambda>q. ''300''),
      toLowerCase = map asciiLowerChar, trim = asciiTrim, numberAdd = (+)\<rparr>"

definition emptyBroker :: broker where
  "emptyBroker = \<lparr>pendingRequests = [], cache = [], pendingDir = [], nextHandle = 0, effects = []\<rparr>"

definition demoEntry :: pending_entry where
  "demoEntry = \<lparr>resolve = 0, timer = 1, pollInterval = 2\<rparr>"

definition demoId :: string where
  "demoId = ''00000000000000ff''"

text \<open>One request pending, with the given files in the drop directory.\<close>

definition onePending :: "(string \<times> string) list \<Rightarrow> broker" where
  "onePending files =
     \<lparr>pendingRequests = [(demoId, demoEntry)], cache = [], pendingDir = files, nextHandle = 3,
      effects = []\<rparr>"

text \<open>
  The calls of \<open>provider.read\<close> in a trace, each with its URI and its elevated flag, and
  the audit entries whose \<open>result\<close> is \<open>cache_hit\<close>.
\<close>

fun providerCalls :: "effect list \<Rightarrow> (string \<times> bool) list" where
  "providerCalls [] = []"
| "providerCalls (ProviderRead u b # es) = (u, b) # providerCalls es"
| "providerCalls (e # es) = providerCalls es"

fun cacheHits :: "effect list \<Rightarrow> obj list" where
  "cacheHits [] = []"
| "cacheHits (AuditLog entry # es) =
     (if map_of entry ''result'' = Some (str ''cache_hit'') then entry # cacheHits es
      else cacheHits es)"
| "cacheHits (e # es) = cacheHits es"

text \<open>
  A daemon for the examples: the container \<open>pub\<close> is open, \<open>sec\<close> is gated and \<open>both\<close>
  is in both lists; the cache is disabled; one channel; the approval is given.
\<close>

definition demoProvider :: provider where
  "demoProvider =
     \<lparr>provider_name = ''onepassword'',
      parseUri = (\<lambda>u.
        if u = ''op://pub/k/f'' then Inr (Some \<lparr>vault = ''pub'', item = ''k'', field = ''f''\<rparr>)
        else if u = ''op://Sec/k/f'' then Inr (Some \<lparr>vault = ''Sec'', item = ''k'', field = ''f''\<rparr>)
        else if u = ''op://Both/k/f'' then Inr (Some \<lparr>vault = ''Both'', item = ''k'', field = ''f''\<rparr>)
        else Inr None),
      provider_read = (\<lambda>u elevated. Inr ''v'')\<rparr>"

definition demoChannel :: channel where
  "demoChannel =
     \<lparr>channel_name = ''telegram'',
      sendApprovalRequest = (\<lambda>prompt. Inr (JObject [(''messageId'', JNumber 1)]))\<rparr>"

definition demoDaemon :: daemon where
  "demoDaemon =
     \<lparr>config = \<lparr>cacheTTL = 0, approvalTimeoutMs = 300000, openVaults = [''pub'', ''both''],
                 gatedVaults = [''sec'', ''BOTH''],
                 standingApprovals =
                   [\<lparr>sa_item = ''cron-key'', reasonMatch = ''cron:*'', sa_note = None\<rparr>]\<rparr>,
      provider = demoProvider,
      channels = [demoChannel]\<rparr>"

definition demoEnv :: env where
  "demoEnv = \<lparr>randomBytes = 255, lookupTime = 0, storeTime = 0,
              resolution = Settled (Some (JBool True)), processUptime = 12\<rparr>"

definition readRequest :: "string \<Rightarrow> json option \<Rightarrow> request" where
  "readRequest u rsn = \<lparr>action = Some ''read'', uri = Some u, reason = rsn\<rparr>"

definition cachedBroker :: broker where
  "cachedBroker =
     \<lparr>pendingRequests = [],
      cache = [(''op://Sec/k/f'', \<lparr>cached_value = ''old'', expiresAt = 1000\<rparr>)],
      pendingDir = [], nextHandle = 0, effects = []\<rparr>"

definition readLine :: string where
  \<open>readLine = ''{"action":"read","uri":"op://Sec/k/f","reason":"check webhook"}''\<close>

definition pingLine :: string where
  \<open>pingLine = ''{"action":"ping"}''\<close>

definition pong :: "nat \<Rightarrow> json" where
  "pong n = JObject [(''status'', JString ''ok''), (''pending'', JNumber (of_nat n))]"

text \<open>
  A connection for the examples: two pings in one chunk, settled in their order; a line
  that is no JSON while nothing is in flight; a read that arrives in two chunks and fails.
\<close>

definition demoEvents :: "event list" where
  \<open>demoEvents =
     [Data (pingLine @ [newline] @ pingLine @ [newline]),
      Settle 0 (Fulfilled (pong 0)), Settle 1 (Fulfilled (pong 0)),
      Data (''{"appro'' @ [newline]),
      Data readLine, Data [newline], Settle 3 (Rejected ''boom'')]\<close>

definition statusRequest :: request where
  "statusRequest = \<lparr>action = Some ''status'', uri = None, reason = None\<rparr>"

section \<open>Properties of the standing-approval matcher\<close>

lemma scan_string_reason:
  "rsn \<noteq> [] \<Longrightarrow>
   scanStandingApprovals sas it (JString rsn) = Inr (find (spec_rule_matches it rsn) sas)"
proof (induction sas)
  case Nil
  show ?case by simp
next
  case (Cons sa rest)
  have eq_prefix: "endsWith (reasonMatch sa) ''*'' \<Longrightarrow> reasonMatch sa = rsn \<Longrightarrow>
      prefix (butlast (reasonMatch sa)) rsn"
    by (metis prefix_order.order_refl prefixeq_butlast prefix_order.trans)
  show ?case
    using Cons eq_prefix
    by (auto simp: spec_rule_matches_def startsWith_def)
qed

text \<open>
  C5. For a string reason the matcher returns the first rule, in configuration order, whose
  item equals the request's item and whose pattern equals the reason or, ending with \<open>*\<close>,
  is a prefix pattern of it; an empty or absent reason matches no rule. With the single rule
  \<open>foo*\<close> the reasons \<open>foo\<close>, \<open>foobar\<close> and \<open>foo:x\<close> match, \<open>fo\<close> and \<open>barfoo\<close> do not.
\<close>

theorem standing_match_first_rule:
  "matchesStandingApproval d it (Some (JString rsn)) =
     Inr (if rsn = [] then None else find (spec_rule_matches it rsn) (STANDING_APPROVALS d))
   \<and> matchesStandingApproval d it None = Inr None
   \<and> (let sa = \<lparr>sa_item = it, reasonMatch = ''foo*'', sa_note = n\<rparr>;
          d' = d\<lparr>config := (config d)\<lparr>standingApprovals := [sa]\<rparr>\<rparr>
      in matchesStandingApproval d' it (Some (JString ''foo'')) = Inr (Some sa)
       \<and> matchesStandingApproval d' it (Some (JString ''foobar'')) = Inr (Some sa)
       \<and> matchesStandingApproval d' it (Some (JString ''foo:x'')) = Inr (Some sa)
       \<and> matchesStandingApproval d' it (Some (JString ''fo'')) = Inr None
       \<and> matchesStandingApproval d' it (Some (JString ''barfoo'')) = Inr None)"
proof -
  have general: "matchesStandingApproval d it (Some (JString rsn)) =
     Inr (if rsn = [] then None else find (spec_rule_matches it rsn) (STANDING_APPROVALS d))"
    by (simp add: matchesStandingApproval_def scan_string_reason)
  have absent: "matchesStandingApproval d it None = Inr None"
    by (simp add: matchesStandingApproval_def)
  have star: "endsWith ''foo*'' ''*''"
    by (simp add: endsWith_def suffix_to_prefix)
  show ?thesis
    using general absent star
    by (simp add: matchesStandingApproval_def STANDING_APPROVALS_def startsWith_def Let_def)
qed

section \<open>Properties of the pending-request registry\<close>

lemma fulfilments_append: "fulfilments (xs @ ys) = fulfilments xs @ fulfilments ys"
  by (induction xs rule: fulfilments.induct) auto

lemma effects_emit [simp]: "effects (emit e s) = effects s @ [e]"
  and pendingRequests_emit [simp]: "pendingRequests (emit e s) = pendingRequests s"
  and pendingDir_emit [simp]: "pendingDir (emit e s) = pendingDir s"
  and cache_emit [simp]: "cache (emit e s) = cache s"
  and nextHandle_emit [simp]: "nextHandle (emit e s) = nextHandle s"
  by (simp_all add: emit_def)

lemma map_of_delete_same [simp]: "map_of (AList.delete k xs) k = None"
  by (simp add: delete_conv)

lemma delete_absent: "map_of xs k = None \<Longrightarrow> AList.delete k xs = xs"
  by (simp add: delete_id map_of_eq_None_iff)

lemma cleanup_absent: "map_of (pendingRequests s) rid = None \<Longrightarrow> cleanup rid s = s"
  by (simp add: cleanup_def)

lemma cleanup_present:
  assumes "map_of (pendingRequests s) rid = Some ent"
  shows "effects (cleanup rid s) =
           effects s @ [ClearTimeout (timer ent), ClearInterval (pollInterval ent), RegistryDelete rid]
             @ (if map_of (pendingDir s) (pendingFile rid) = None then [] else [Unlink (pendingFile rid)])"
    and "pendingRequests (cleanup rid s) = AList.delete rid (pendingRequests s)"
    and "pendingDir (cleanup rid s) = AList.delete (pendingFile rid) (pendingDir s)"
    and "cache (cleanup rid s) = cache s"
  using assms
  by (auto simp: cleanup_def unlinkSync_def Let_def delete_absent split: option.splits)

lemma resolve_absent: "map_of (pendingRequests s) rid = None \<Longrightarrow> resolveApproval rid a s = (False, s)"
  by (simp add: resolveApproval_def)

lemma resolve_present:
  assumes "map_of (pendingRequests s) rid = Some ent"
  shows "resolveApproval rid a s = (True, emit (Fulfil (resolve ent) (truthy a)) (cleanup rid s))"
  using assms by (simp add: resolveApproval_def)

lemma resolve_removes: "map_of (pendingRequests (snd (resolveApproval rid a s))) rid = None"
proof (cases "map_of (pendingRequests s) rid")
  case None
  then show ?thesis by (simp add: resolve_absent)
next
  case (Some ent)
  then show ?thesis by (simp add: resolve_present cleanup_present)
qed

lemma resolveAll_absent:
  "map_of (pendingRequests s) rid = None \<Longrightarrow> resolveAll rid as s = s"
  by (induction as) (simp_all add: resolve_absent)

lemma resolveAll_once:
  "length (fulfilments (effects (resolveAll rid as s))) \<le> Suc (length (fulfilments (effects s)))"
proof (cases as)
  case Nil
  then show ?thesis by simp
next
  case (Cons a rest)
  show ?thesis
  proof (cases "map_of (pendingRequests s) rid")
    case None
    then show ?thesis by (simp add: resolveAll_absent)
  next
    case (Some ent)
    have "resolveAll rid as s = snd (resolveApproval rid a s)"
      using Cons resolveAll_absent [OF resolve_removes] by simp
    then show ?thesis
      using Some by (simp add: resolve_present cleanup_present fulfilments_append)
  qed
qed

text \<open>
  C2. Resolving an id that has no registry entry returns false and changes nothing, and
  \<open>POST /callback\<close> then answers 200 with \<open>{ok: true, resolved: false}\<close>. Resolving a
  pending id returns true; its timeout and poll interval are cleared and its entry is
  deleted before the resolver is called; a second resolve of the id finds no entry and
  returns false; however often the id is resolved, the resolver is called once.
\<close>

theorem resolve_idempotent_exactly_once:
  assumes absent: "map_of (pendingRequests s0) rid = None"
    and present: "map_of (pendingRequests s) rid = Some ent"
    and body: "JSON_parse rt body = Some (JObject kvs)"
    and named: "map_of kvs ''requestId'' = Some (JString rid)"
    and nonempty: "rid \<noteq> []"
  shows "resolveApproval rid a s0 = (False, s0)
       \<and> callbackEndpoint rt body s0 =
           ((200, JObject [(''ok'', JBool True), (''resolved'', JBool False)]), s0)
       \<and> fst (resolveApproval rid a s) = True
       \<and> resolveApproval rid b (snd (resolveApproval rid a s)) = (False, snd (resolveApproval rid a s))
       \<and> map_of (pendingRequests (snd (resolveApproval rid a s))) rid = None
       \<and> effects (snd (resolveApproval rid a s)) =
           effects s @ [ClearTimeout (timer ent), ClearInterval (pollInterval ent), RegistryDelete rid]
             @ (if map_of (pendingDir s) (pendingFile rid) = None then [] else [Unlink (pendingFile rid)])
             @ [Fulfil (resolve ent) (truthy a)]
       \<and> fulfilments (effects (resolveAll rid (a # as) s)) =
           fulfilments (effects s) @ [(resolve ent, truthy a)]
       \<and> length (fulfilments (effects (resolveAll rid bs t))) \<le> Suc (length (fulfilments (effects t)))"
proof -
  have p1: "resolveApproval rid a s0 = (False, s0)"
    using absent by (rule resolve_absent)
  have p2: "callbackEndpoint rt body s0 =
           ((200, JObject [(''ok'', JBool True), (''resolved'', JBool False)]), s0)"
    using body named nonempty absent
    by (simp add: callbackEndpoint_def resolve_absent)
  have p3: "fst (resolveApproval rid a s) = True"
    using present by (simp add: resolve_present)
  have p4: "resolveApproval rid b (snd (resolveApproval rid a s)) = (False, snd (resolveApproval rid a s))"
    using resolve_removes by (rule resolve_absent)
  have p5: "map_of (pendingRequests (snd (resolveApproval rid a s))) rid = None"
    by (rule resolve_removes)
  have p6: "effects (snd (resolveApproval rid a s)) =
           effects s @ [ClearTimeout (timer ent), ClearInterval (pollInterval ent), RegistryDelete rid]
             @ (if map_of (pendingDir s) (pendingFile rid) = None then [] else [Unlink (pendingFile rid)])
             @ [Fulfil (resolve ent) (truthy a)]"
    using present by (simp add: resolve_present cleanup_present)
  have "resolveAll rid (a # as) s = snd (resolveApproval rid a s)"
    using resolveAll_absent [OF resolve_removes] by simp
  then have p7: "fulfilments (effects (resolveAll rid (a # as) s)) =
           fulfilments (effects s) @ [(resolve ent, truthy a)]"
    using p6 by (simp add: fulfilments_append)
  have p8: "length (fulfilments (effects (resolveAll rid bs t))) \<le> Suc (length (fulfilments (effects t)))"
    by (rule resolveAll_once)
  show ?thesis
    using p1 p2 p3 p4 p5 p6 p7 p8 by blast
qed


theorem resolve_idempotent_exactly_once_witness:
  \<open>map_of (pendingRequests emptyBroker) demoId = None
   \<and> map_of (pendingRequests (onePending [])) demoId = Some demoEntry
   \<and> JSON_parse demoRuntime ''{"requestId":"00000000000000ff","approved":true}'' =
       Some (JObject [(''requestId'', JString demoId), (''approved'', JBool True)])
   \<and> demoId \<noteq> []
   \<and> resolveApproval demoId (Some (JBool True)) emptyBroker = (False, emptyBroker)
   \<and> callbackEndpoint demoRuntime ''{"requestId":"00000000000000ff","approved":true}'' emptyBroker =
       ((200, JObject [(''ok'', JBool True), (''resolved'', JBool False)]), emptyBroker)
   \<and> fst (resolveApproval demoId (Some (JBool True)) (onePending [])) = True
   \<and> effects (snd (resolveApproval demoId (Some (JBool True)) (onePending []))) =
       [ClearTimeout 1, ClearInterval 2, RegistryDelete demoId, Fulfil 0 True]
   \<and> fulfilments (effects (resolveAll demoId [Some (JBool True)] (onePending []))) = [(0, True)]
   \<and> length (fulfilments (effects (resolveAll demoId [Some (JBool True), None] (onePending []))))
       \<le> Suc 0\<close>
proof -
  have h1: "map_of (pendingRequests emptyBroker) demoId = None"
    by (simp add: emptyBroker_def)
  have h2: "map_of (pendingRequests (onePending [])) demoId = Some demoEntry"
    by (simp add: onePending_def)
  have h3: \<open>JSON_parse demoRuntime ''{"requestId":"00000000000000ff","approved":true}'' =
       Some (JObject [(''requestId'', JString demoId), (''approved'', JBool True)])\<close>
    by (simp add: demoRuntime_def demoParse_def demoId_def)
  have h4: "map_of [(''requestId'', JString demoId), (''approved'', JBool True)] ''requestId'' =
       Some (JString demoId)"
    by simp
  have h5: "demoId \<noteq> []"
    by (simp add: demoId_def)
  have nofile: "map_of (pendingDir (onePending [])) (pendingFile demoId) = None"
    by (simp add: onePending_def)
  have fresh: "effects (onePending []) = []"
    by (simp add: onePending_def)
  show ?thesis
    using resolve_idempotent_exactly_once [OF h1 h2 h3 h4 h5,
        of "Some (JBool True)" "Some (JBool True)" "[]" "[Some (JBool True), None]" "onePending []"]
      h1 h2 h3 h5
    by (simp add: nofile fresh demoEntry_def)
qed

section \<open>Properties of the HTTP callback\<close>

lemma generateRequestId_length: "length (generateRequestId w) = 16"
  by (simp add: generateRequestId_def)

lemma generateRequestId_nonempty: "generateRequestId w \<noteq> []"
  using generateRequestId_length [of w] by auto

lemma demoId_minted: "demoId = generateRequestId 255"
  by (simp add: demoId_def generateRequestId_def hexDigit_def upt_rec drop_bit_eq_div)

text \<open>
  C10. For a pending id, \<open>POST /callback\<close> with a body that names it answers 200 with
  \<open>{ok: true, resolved: true}\<close> and calls the resolver with the truthiness of the body's
  \<open>approved\<close>: false for an absent or falsy value (a denial), true for a truthy one.
\<close>

theorem callback_coerces_approved:
  assumes present: "map_of (pendingRequests s) rid = Some ent"
    and minted: "rid = generateRequestId w"
    and body: "JSON_parse rt body = Some (JObject kvs)"
    and named: "map_of kvs ''requestId'' = Some (JString rid)"
  shows "fst (callbackEndpoint rt body s) =
           (200, JObject [(''ok'', JBool True), (''resolved'', JBool True)])
       \<and> fulfilments (effects (snd (callbackEndpoint rt body s))) =
           fulfilments (effects s) @ [(resolve ent, truthy (map_of kvs ''approved''))]
       \<and> map_of (pendingRequests (snd (callbackEndpoint rt body s))) rid = None"
proof -
  have nonempty: "rid \<noteq> []"
    using minted generateRequestId_nonempty by simp
  have run: "callbackEndpoint rt body s =
      ((200, JObject [(''ok'', JBool True), (''resolved'', JBool True)]),
       snd (resolveApproval rid (map_of kvs ''approved'') s))"
    using body named nonempty present
    by (simp add: callbackEndpoint_def resolve_present)
  have fired: "fulfilments (effects (snd (resolveApproval rid (map_of kvs ''approved'') s))) =
      fulfilments (effects s) @ [(resolve ent, truthy (map_of kvs ''approved''))]"
    using present by (simp add: resolve_present cleanup_present fulfilments_append)
  show ?thesis
    using run fired resolve_removes [of rid "map_of kvs ''approved''" s] by simp
qed

theorem callback_coerces_approved_witness:
  \<open>map_of (pendingRequests (onePending [])) demoId = Some demoEntry
   \<and> demoId = generateRequestId 255
   \<and> JSON_parse demoRuntime ''{"requestId":"00000000000000ff"}'' =
       Some (JObject [(''requestId'', JString demoId)])
   \<and> fst (callbackEndpoint demoRuntime ''{"requestId":"00000000000000ff"}'' (onePending [])) =
       (200, JObject [(''ok'', JBool True), (''resolved'', JBool True)])
   \<and> fulfilments (effects (snd (callbackEndpoint demoRuntime
         ''{"requestId":"00000000000000ff"}'' (onePending [])))) = [(0, False)]\<close>
proof -
  have h1: "map_of (pendingRequests (onePending [])) demoId = Some demoEntry"
    by (simp add: onePending_def)
  have h3: \<open>JSON_parse demoRuntime ''{"requestId":"00000000000000ff"}'' =
       Some (JObject [(''requestId'', JString demoId)])\<close>
    by (simp add: demoRuntime_def demoParse_def demoId_def)
  have h4: "map_of [(''requestId'', JString demoId)] ''requestId'' = Some (JString demoId)"
    by simp
  show ?thesis
    using callback_coerces_approved [OF h1 demoId_minted h3 h4] h1 h3 demoId_minted
    by (simp add: onePending_def demoEntry_def)
qed

section \<open>Properties of the drop-directory poll\<close>

lemma pollTick_frame:
  "g \<noteq> pendingFile rid \<Longrightarrow> map_of (pendingDir (pollTick rt rid i t)) g = map_of (pendingDir t) g"
proof -
  assume other: "g \<noteq> pendingFile rid"
  have cl: "map_of (pendingDir (cleanup rid u)) g = map_of (pendingDir u) g" for u
    using other
    by (cases "map_of (pendingRequests u) rid") (simp_all add: cleanup_absent cleanup_present delete_conv)
  have rs: "map_of (pendingDir (snd (resolveApproval rid a u))) g = map_of (pendingDir u) g" for a u
    by (cases "map_of (pendingRequests u) rid") (simp_all add: resolve_absent resolve_present cl)
  show ?thesis
    using other
    by (auto simp: pollTick_def Let_def unlinkSync_def rs delete_conv
             split: option.splits sum.splits)
qed

text \<open>
  C3, as amended. When the drop file of a pending id exists and its content parses as JSON
  to a value whose \<open>approved\<close> can be read (any value but \<open>null\<close>), the tick reads the
  file, unlinks it and only then resolves the request, with the truthiness of \<open>approved\<close>:
  the unlink precedes the call of the resolver, and afterwards neither the file nor the
  registry entry exists. When the content is no JSON the tick changes nothing but to read
  the file: the file stays and the request stays pending. A tick never touches a file with
  another name.
\<close>

theorem poll_unlinks_then_resolves:
  assumes present: "map_of (pendingRequests s) rid = Some ent"
    and dropped: "map_of (pendingDir s) (pendingFile rid) = Some text"
    and parsed: "JSON_parse rt text = Some data"
    and readable: "getProp data ''approved'' = Inr approved"
    and badfile: "map_of (pendingDir sb) (pendingFile rid) = Some bad"
    and malformed: "JSON_parse rt bad = None"
    and other: "g \<noteq> pendingFile rid"
  shows "effects (pollTick rt rid i s) =
           effects s @ [ReadFile (pendingFile rid), Unlink (pendingFile rid), ClearInterval i,
                        ClearTimeout (timer ent), ClearInterval (pollInterval ent),
                        RegistryDelete rid, Fulfil (resolve ent) (truthy approved)]
       \<and> map_of (pendingDir (pollTick rt rid i s)) (pendingFile rid) = None
       \<and> map_of (pendingRequests (pollTick rt rid i s)) rid = None
       \<and> pollTick rt rid i sb = emit (ReadFile (pendingFile rid)) sb
       \<and> map_of (pendingDir (pollTick rt rid i t)) g = map_of (pendingDir t) g"
proof -
  define s2 where "s2 = emit (ClearInterval i) (emit (Unlink (pendingFile rid))
      ((emit (ReadFile (pendingFile rid)) s)\<lparr>pendingDir := AList.delete (pendingFile rid) (pendingDir s)\<rparr>))"
  have tick: "pollTick rt rid i s = snd (resolveApproval rid approved s2)"
    using dropped parsed readable
    by (simp add: pollTick_def Let_def unlinkSync_def s2_def)
  have present2: "map_of (pendingRequests s2) rid = Some ent"
    using present by (simp add: s2_def)
  have gone2: "map_of (pendingDir s2) (pendingFile rid) = None"
    by (simp add: s2_def)
  have eff2: "effects s2 = effects s @ [ReadFile (pendingFile rid), Unlink (pendingFile rid),
      ClearInterval i]"
    by (simp add: s2_def)
  have p1: "effects (pollTick rt rid i s) =
           effects s @ [ReadFile (pendingFile rid), Unlink (pendingFile rid), ClearInterval i,
                        ClearTimeout (timer ent), ClearInterval (pollInterval ent),
                        RegistryDelete rid, Fulfil (resolve ent) (truthy approved)]"
    using present2 gone2 eff2 by (simp add: tick resolve_present cleanup_present)
  have p2: "map_of (pendingDir (pollTick rt rid i s)) (pendingFile rid) = None"
    using present2 by (simp add: tick resolve_present cleanup_present)
  have p3: "map_of (pendingRequests (pollTick rt rid i s)) rid = None"
    unfolding tick by (rule resolve_removes)
  have p4: "pollTick rt rid i sb = emit (ReadFile (pendingFile rid)) sb"
    using badfile malformed by (simp add: pollTick_def Let_def)
  have p5: "map_of (pendingDir (pollTick rt rid i t)) g = map_of (pendingDir t) g"
    using other by (rule pollTick_frame)
  show ?thesis
    using p1 p2 p3 p4 p5 by blast
qed


theorem poll_unlinks_then_resolves_witness:
  \<open>map_of (pendingRequests (onePending [(pendingFile demoId, ''{"approved":true}''),
        (''other.json'', ''{"approved":true}'')])) demoId = Some demoEntry
   \<and> JSON_parse demoRuntime ''{"approved":true}'' = Some (JObject [(''approved'', JBool True)])
   \<and> JSON_parse demoRuntime ''{"appro'' = None
   \<and> ''other.json'' \<noteq> pendingFile demoId
   \<and> effects (pollTick demoRuntime demoId 2 (onePending [(pendingFile demoId, ''{"approved":true}''),
        (''other.json'', ''{"approved":true}'')])) =
       [ReadFile (pendingFile demoId), Unlink (pendingFile demoId), ClearInterval 2,
        ClearTimeout 1, ClearInterval 2, RegistryDelete demoId, Fulfil 0 True]
   \<and> map_of (pendingDir (pollTick demoRuntime demoId 2
        (onePending [(pendingFile demoId, ''{"approved":true}''),
          (''other.json'', ''{"approved":true}'')]))) ''other.json'' = Some ''{"approved":true}''
   \<and> pollTick demoRuntime demoId 2 (onePending [(pendingFile demoId, ''{"appro'')]) =
       emit (ReadFile (pendingFile demoId)) (onePending [(pendingFile demoId, ''{"appro'')])\<close>
proof -
  define s where \<open>s = onePending [(pendingFile demoId, ''{"approved":true}''),
        (''other.json'', ''{"approved":true}'')]\<close>
  define sb where \<open>sb = onePending [(pendingFile demoId, ''{"appro'')]\<close>
  have h1: "map_of (pendingRequests s) demoId = Some demoEntry"
    by (simp add: s_def onePending_def)
  have h2: \<open>map_of (pendingDir s) (pendingFile demoId) = Some ''{"approved":true}''\<close>
    by (simp add: s_def onePending_def)
  have h3: \<open>JSON_parse demoRuntime ''{"approved":true}'' = Some (JObject [(''approved'', JBool True)])\<close>
    by (simp add: demoRuntime_def demoParse_def)
  have h4: "getProp (JObject [(''approved'', JBool True)]) ''approved'' = Inr (Some (JBool True))"
    by simp
  have h5: \<open>map_of (pendingDir sb) (pendingFile demoId) = Some ''{"appro''\<close>
    by (simp add: sb_def onePending_def)
  have h6: \<open>JSON_parse demoRuntime ''{"appro'' = None\<close>
    by (simp add: demoRuntime_def demoParse_def)
  have h7: "''other.json'' \<noteq> pendingFile demoId"
    by (simp add: pendingFile_def demoId_def)
  have fresh: "effects s = []"
    by (simp add: s_def onePending_def)
  have kept: \<open>map_of (pendingDir s) ''other.json'' = Some ''{"approved":true}''\<close>
    using h7 by (simp add: s_def onePending_def)
  show ?thesis
    using poll_unlinks_then_resolves [OF h1 h2 h3 h4 h5 h6 h7, of 2 s] h1 h3 h6 h7
    by (simp add: fresh kept demoEntry_def flip: s_def sb_def)
qed

text \<open>
  A drop file whose content is the JSON text \<open>null\<close> is unlinked and the interval is
  cleared, and then \<open>data.approved\<close> throws: the request is not resolved and stays pending
  with no poll left.
\<close>

lemma poll_null_file:
  assumes "map_of (pendingRequests s) rid = Some ent"
    and "map_of (pendingDir s) (pendingFile rid) = Some text"
    and "JSON_parse rt text = Some JNull"
  shows "effects (pollTick rt rid i s) =
           effects s @ [ReadFile (pendingFile rid), Unlink (pendingFile rid), ClearInterval i]"
    and "map_of (pendingRequests (pollTick rt rid i s)) rid = Some ent"
  using assms by (simp_all add: pollTick_def Let_def unlinkSync_def)

text \<open>
  A drop file that holds the first bytes of a write only: the tick reads it, and that is
  all. The file is still there, the request is still pending, no resolver was called.
\<close>

theorem poll_malformed_file_counterexample:
  \<open>map_of (pendingRequests (onePending [(pendingFile demoId, ''{"appro'')])) demoId = Some demoEntry
   \<and> map_of (pendingDir (onePending [(pendingFile demoId, ''{"appro'')])) (pendingFile demoId)
       = Some ''{"appro''
   \<and> effects (pollTick demoRuntime demoId 2 (onePending [(pendingFile demoId, ''{"appro'')])) =
       [ReadFile (pendingFile demoId)]
   \<and> map_of (pendingDir (pollTick demoRuntime demoId 2
        (onePending [(pendingFile demoId, ''{"appro'')]))) (pendingFile demoId) = Some ''{"appro''
   \<and> map_of (pendingRequests (pollTick demoRuntime demoId 2
        (onePending [(pendingFile demoId, ''{"appro'')]))) demoId = Some demoEntry\<close>
  by (simp add: pollTick_def onePending_def demoRuntime_def demoParse_def Let_def)

section \<open>Properties of the request handler\<close>

lemma providerCalls_append: "providerCalls (xs @ ys) = providerCalls xs @ providerCalls ys"
  by (induction xs rule: providerCalls.induct) auto

lemma cacheHits_append: "cacheHits (xs @ ys) = cacheHits xs @ cacheHits ys"
  by (induction xs rule: cacheHits.induct) auto

lemma effects_audit_log: "effects (audit_log entry s) = effects s @ [AuditLog entry]"
  by (simp add: audit_log_def)

lemma calls_cleanup: "providerCalls (effects (cleanup rid s)) = providerCalls (effects s)"
  by (cases "map_of (pendingRequests s) rid")
     (simp_all add: cleanup_absent cleanup_present providerCalls_append)

lemma hits_cleanup: "cacheHits (effects (cleanup rid s)) = cacheHits (effects s)"
  by (cases "map_of (pendingRequests s) rid")
     (simp_all add: cleanup_absent cleanup_present cacheHits_append)

lemma calls_resolve:
  "providerCalls (effects (snd (resolveApproval rid a s))) = providerCalls (effects s)"
  by (cases "map_of (pendingRequests s) rid")
     (simp_all add: resolve_absent resolve_present calls_cleanup providerCalls_append)

lemma hits_resolve:
  "cacheHits (effects (snd (resolveApproval rid a s))) = cacheHits (effects s)"
  by (cases "map_of (pendingRequests s) rid")
     (simp_all add: resolve_absent resolve_present hits_cleanup cacheHits_append)

lemma calls_wait:
  "providerCalls (effects (snd (waitForApproval d rid s))) = providerCalls (effects s)"
  by (simp add: waitForApproval_def Let_def providerCalls_append)

lemma hits_wait:
  "cacheHits (effects (snd (waitForApproval d rid s))) = cacheHits (effects s)"
  by (simp add: waitForApproval_def Let_def cacheHits_append)

lemma calls_timeout:
  "providerCalls (effects (approvalTimeout rt d rid h s)) = providerCalls (effects s)"
  by (simp add: approvalTimeout_def providerCalls_append calls_cleanup)

lemma hits_timeout:
  "cacheHits (effects (approvalTimeout rt d rid h s)) = cacheHits (effects s)"
  by (simp add: approvalTimeout_def cacheHits_append hits_cleanup)

lemma calls_update:
  "providerCalls (effects (updateChannels refs b info s)) = providerCalls (effects s)"
  by (induction refs b info s rule: updateChannels.induct)
     (simp_all add: providerCalls_append)

lemma hits_update:
  "cacheHits (effects (updateChannels refs b info s)) = cacheHits (effects s)"
  by (induction refs b info s rule: updateChannels.induct)
     (simp_all add: cacheHits_append)

lemma calls_send:
  "providerCalls (effects (snd (sendToChannels cs prompt rid s))) = providerCalls (effects s)"
  by (induction cs prompt rid s rule: sendToChannels.induct)
     (auto simp: providerCalls_append effects_audit_log Let_def split: sum.splits prod.splits)

lemma hits_send:
  "cacheHits (effects (snd (sendToChannels cs prompt rid s))) = cacheHits (effects s)"
  by (induction cs prompt rid s rule: sendToChannels.induct)
     (auto simp: cacheHits_append effects_audit_log Let_def split: sum.splits prod.splits)

lemma effects_setCache: "effects (setCache rt d now u v s) = effects s"
  by (simp add: setCache_def)




lemma hits_openRead:
  "cacheHits (effects (snd (openRead d u parsed s))) = cacheHits (effects s)"
  by (simp add: openRead_def Let_def effects_audit_log cacheHits_append readFields_def
           split: sum.splits)


lemma hits_standingRead:
  "cacheHits (effects (snd (standingRead d u parsed rsn sa s))) = cacheHits (effects s)"
  by (simp add: standingRead_def Let_def effects_audit_log cacheHits_append readFields_def
           split: sum.splits)


lemma hits_approvedRead:
  "cacheHits (effects (snd (approvedRead rt d e u parsed rsn rid s))) = cacheHits (effects s)"
  by (simp add: approvedRead_def Let_def effects_audit_log effects_setCache cacheHits_append
                readFields_def
           split: sum.splits)

lemma approvalFlow_cases:
  obtains (ended) "providerCalls (effects (snd (approvalFlow rt d e u parsed rsn s))) =
                     providerCalls (effects s)"
                  "cacheHits (effects (snd (approvalFlow rt d e u parsed rsn s))) =
                     cacheHits (effects s)"
          | (approved) s5 where
              "approvalFlow rt d e u parsed rsn s =
                 approvedRead rt d e u parsed rsn (generateRequestId (randomBytes e)) s5"
              "providerCalls (effects s5) = providerCalls (effects s)"
              "cacheHits (effects s5) = cacheHits (effects s)"
proof -
  define rid where "rid = generateRequestId (randomBytes e)"
  define s1 where "s1 = audit_log ((''action'', str ''request'') # (''requestId'', str rid) #
       readFields u parsed @
       [(''reason'', rsn), (''type'', str ''gated''), (''result'', str ''pending'')]) s"
  define prompt where "prompt = [(''requestId'', str rid), (''item'', str (item parsed)),
       (''field'', str (field parsed)), (''vault'', str (vault parsed)), (''reason'', rsn)]"
  define info where "info = [(''item'', str (item parsed)), (''field'', str (field parsed)),
       (''vault'', str (vault parsed))]"
  obtain refs s2 where send: "sendToChannels (channels d) prompt rid s1 = (refs, s2)"
    by (cases "sendToChannels (channels d) prompt rid s1")
  obtain h s3 where wait: "waitForApproval d rid s2 = (h, s3)"
    by (cases "waitForApproval d rid s2")
  have c1: "providerCalls (effects s1) = providerCalls (effects s)"
    by (simp add: s1_def effects_audit_log providerCalls_append)
  have h1: "cacheHits (effects s1) = cacheHits (effects s)"
    by (simp add: s1_def effects_audit_log cacheHits_append readFields_def)
  have c2: "providerCalls (effects s2) = providerCalls (effects s)"
    using calls_send [of "channels d" prompt rid s1] send c1 by simp
  have h2: "cacheHits (effects s2) = cacheHits (effects s)"
    using hits_send [of "channels d" prompt rid s1] send h1 by simp
  have c3: "providerCalls (effects s3) = providerCalls (effects s)"
    using calls_wait [of d rid s2] wait c2 by simp
  have h3: "cacheHits (effects s3) = cacheHits (effects s)"
    using hits_wait [of d rid s2] wait h2 by simp
  define cont where "cont =
         (case resolution e of
            Settled answer \<Rightarrow>
              (let s4 = snd (resolveApproval rid answer s3);
                   approved = truthy answer;
                   s5 = updateChannels refs approved info s4
               in if \<not> approved
                  then (Inr (errorResponse ''Request denied by operator''),
                        audit_log ((''action'', str ''denied'') # (''requestId'', str rid) #
                                   readFields u parsed @ [(''reason'', rsn)]) s5)
                  else approvedRead rt d e u parsed rsn rid
                         (audit_log ((''action'', str ''approved'') # (''requestId'', str rid) #
                                     readFields u parsed @ [(''reason'', rsn)]) s5))
          | TimedOut \<Rightarrow>
              (let s4 = approvalTimeout rt d rid h s3;
                   s5 = updateChannels refs False info s4
               in (Inr (errorResponse (timeoutMessage rt d)),
                   audit_log [(''action'', str ''timeout''), (''requestId'', str rid),
                              (''uri'', str u), (''reason'', rsn)] s5)))"
  have unfold: "approvalFlow rt d e u parsed rsn s =
      (if length refs = 0 \<and> length (channels d) > 0
       then (Inr (errorResponse ''Failed to send approval request to any channel''), s2)
       else cont)"
    using send wait
    unfolding approvalFlow_def Let_def rid_def s1_def prompt_def info_def cont_def
    by (simp cong del: if_weak_cong cong: if_cong)
  show ?thesis
  proof (cases "length refs = 0 \<and> length (channels d) > 0")
    case True
    show ?thesis
    proof (rule ended)
      show "providerCalls (effects (snd (approvalFlow rt d e u parsed rsn s))) =
              providerCalls (effects s)"
        using True c2 by (simp add: unfold)
      show "cacheHits (effects (snd (approvalFlow rt d e u parsed rsn s))) = cacheHits (effects s)"
        using True h2 by (simp add: unfold)
    qed
  next
    case False
    then have flow: "approvalFlow rt d e u parsed rsn s = cont"
      by (simp only: unfold if_False)
    show ?thesis
    proof (cases "resolution e")
      case TimedOut
      show ?thesis
      proof (rule ended)
        show "providerCalls (effects (snd (approvalFlow rt d e u parsed rsn s))) =
                providerCalls (effects s)"
          using TimedOut c3
          by (simp add: flow cont_def Let_def effects_audit_log providerCalls_append calls_update
                calls_timeout)
        show "cacheHits (effects (snd (approvalFlow rt d e u parsed rsn s))) =
                cacheHits (effects s)"
          using TimedOut h3
          by (simp add: flow cont_def Let_def effects_audit_log cacheHits_append hits_update
                hits_timeout)
      qed
    next
      case (Settled answer)
      show ?thesis
      proof (cases "truthy answer")
        case False
        show ?thesis
        proof (rule ended)
          show "providerCalls (effects (snd (approvalFlow rt d e u parsed rsn s))) =
                  providerCalls (effects s)"
            using Settled False c3
            by (simp add: flow cont_def Let_def effects_audit_log providerCalls_append
                  calls_update calls_resolve)
          show "cacheHits (effects (snd (approvalFlow rt d e u parsed rsn s))) =
                  cacheHits (effects s)"
            using Settled False h3
            by (simp add: flow cont_def Let_def effects_audit_log cacheHits_append readFields_def
                  hits_update hits_resolve)
        qed
      next
        case True
        define s5 where "s5 = updateChannels refs True info (snd (resolveApproval rid answer s3))"
        have c5: "providerCalls (effects s5) = providerCalls (effects s)"
          by (simp add: s5_def calls_update calls_resolve c3)
        have h5: "cacheHits (effects s5) = cacheHits (effects s)"
          by (simp add: s5_def hits_update hits_resolve h3)
        show ?thesis
        proof (rule approved)
          show "approvalFlow rt d e u parsed rsn s =
              approvedRead rt d e u parsed rsn (generateRequestId (randomBytes e))
                (audit_log ((''action'', str ''approved'') # (''requestId'', str rid) #
                            readFields u parsed @ [(''reason'', rsn)]) s5)"
            using Settled True by (simp add: flow cont_def Let_def rid_def s5_def)
          show "providerCalls (effects (audit_log ((''action'', str ''approved'') #
                  (''requestId'', str rid) # readFields u parsed @ [(''reason'', rsn)]) s5)) =
                providerCalls (effects s)"
            using c5 by (simp add: effects_audit_log providerCalls_append)
          show "cacheHits (effects (audit_log ((''action'', str ''approved'') #
                  (''requestId'', str rid) # readFields u parsed @ [(''reason'', rsn)]) s5)) =
                cacheHits (effects s)"
            using h5 by (simp add: effects_audit_log cacheHits_append readFields_def)
        qed
      qed
    qed
  qed
qed


lemma handleRead_open:
  assumes "uri req = Some u" and "u \<noteq> []" and "parseUri (provider d) u = Inr (Some parsed)"
    and "toLowerCase rt (vault parsed) \<in> OPEN_VAULTS rt d"
  shows "handleRead rt d e req s = openRead d u parsed s"
  using assms by (simp add: handleRead_def Let_def)

lemma handleRead_gated:
  assumes "uri req = Some u" and "u \<noteq> []" and "parseUri (provider d) u = Inr (Some parsed)"
    and "toLowerCase rt (vault parsed) \<notin> OPEN_VAULTS rt d"
    and "toLowerCase rt (vault parsed) \<in> GATED_VAULTS rt d"
  shows "handleRead rt d e req s = gatedRead rt d e u parsed (reason req) s"
  using assms by (simp add: handleRead_def Let_def)


lemma hits_approvalFlow:
  "cacheHits (effects (snd (approvalFlow rt d e u parsed rsn s))) = cacheHits (effects s)"
proof (cases rule: approvalFlow_cases [of rt d e u parsed rsn s])
  case ended
  then show ?thesis by simp
next
  case (approved s5)
  then show ?thesis by (simp add: hits_approvedRead)
qed




lemma demo_lower:
  "toLowerCase demoRuntime ''pub'' = ''pub''" "toLowerCase demoRuntime ''Sec'' = ''sec''"
  "toLowerCase demoRuntime ''Both'' = ''both''" "toLowerCase demoRuntime ''both'' = ''both''"
  "toLowerCase demoRuntime ''sec'' = ''sec''" "toLowerCase demoRuntime ''BOTH'' = ''both''"
  by (simp_all add: demoRuntime_def asciiLowerChar_def)

lemma demo_vaults:
  "OPEN_VAULTS demoRuntime demoDaemon = {''pub'', ''both''}"
  "GATED_VAULTS demoRuntime demoDaemon = {''sec'', ''both''}"
  by (simp_all add: OPEN_VAULTS_def GATED_VAULTS_def demoDaemon_def demo_lower)


text \<open>
  C4. A read on a gated container whose reason is absent or empty returns the error that a
  reason is required and leaves the broker's state as it was: no audit entry is written and
  no prompt is sent.
\<close>

theorem gated_read_requires_reason:
  assumes "uri req = Some u" and "u \<noteq> []" and "parseUri (provider d) u = Inr (Some parsed)"
    and "toLowerCase rt (vault parsed) \<notin> OPEN_VAULTS rt d"
    and "toLowerCase rt (vault parsed) \<in> GATED_VAULTS rt d"
    and "reason req = None \<or> reason req = Some (JString [])"
  shows \<open>handleRead rt d e req s =
          (Inr (errorResponse ''Reason is REQUIRED for gated vault items. Pass --reason "..."''), s)\<close>
proof -
  have "\<not> truthy (reason req)"
    using assms(6) by auto
  then show ?thesis
    using handleRead_gated [OF assms(1-5)] by (simp add: gatedRead_def)
qed

theorem gated_read_requires_reason_witness:
  \<open>uri (readRequest ''op://Sec/k/f'' None) = Some ''op://Sec/k/f''
   \<and> parseUri (provider demoDaemon) ''op://Sec/k/f'' =
       Inr (Some \<lparr>vault = ''Sec'', item = ''k'', field = ''f''\<rparr>)
   \<and> toLowerCase demoRuntime ''Sec'' \<notin> OPEN_VAULTS demoRuntime demoDaemon
   \<and> toLowerCase demoRuntime ''Sec'' \<in> GATED_VAULTS demoRuntime demoDaemon
   \<and> reason (readRequest ''op://Sec/k/f'' None) = None
   \<and> handleRead demoRuntime demoDaemon demoEnv (readRequest ''op://Sec/k/f'' None) emptyBroker =
       (Inr (errorResponse ''Reason is REQUIRED for gated vault items. Pass --reason "..."''),
        emptyBroker)\<close>
proof -
  have g1: "uri (readRequest ''op://Sec/k/f'' None) = Some ''op://Sec/k/f''"
    by (simp add: readRequest_def)
  have g2: "''op://Sec/k/f'' \<noteq> []"
    by simp
  have g3: "parseUri (provider demoDaemon) ''op://Sec/k/f'' =
       Inr (Some \<lparr>vault = ''Sec'', item = ''k'', field = ''f''\<rparr>)"
    by (simp add: demoDaemon_def demoProvider_def)
  have g4: "toLowerCase demoRuntime (vault \<lparr>vault = ''Sec'', item = ''k'', field = ''f''\<rparr>) \<notin> OPEN_VAULTS demoRuntime demoDaemon"
    by (simp add: demo_vaults demo_lower)
  have g5: "toLowerCase demoRuntime (vault \<lparr>vault = ''Sec'', item = ''k'', field = ''f''\<rparr>) \<in> GATED_VAULTS demoRuntime demoDaemon"
    by (simp add: demo_vaults demo_lower)
  have g6: "reason (readRequest ''op://Sec/k/f'' None) = None
      \<or> reason (readRequest ''op://Sec/k/f'' None) = Some (JString [])"
    by (simp add: readRequest_def)
  show ?thesis
    using gated_read_requires_reason [OF g1 g2 g3 g4 g5 g6, where e = demoEnv and s = emptyBroker]
      g1 g3 g4 g5
    by (simp add: readRequest_def)
qed

text \<open>
  C9. A container that is in the open list and in the gated list is handled as open: the
  read is audited as open and allowed, the provider is called without the elevated flag,
  its value (or its error) is the response, and no approval is registered.
\<close>

theorem open_takes_precedence:
  assumes "uri req = Some u" and "u \<noteq> []" and "parseUri (provider d) u = Inr (Some parsed)"
    and "toLowerCase rt (vault parsed) \<in> OPEN_VAULTS rt d"
    and "toLowerCase rt (vault parsed) \<in> GATED_VAULTS rt d"
  shows "handleRead rt d e req s = openRead d u parsed s
       \<and> fst (handleRead rt d e req s) =
           Inr (case provider_read (provider d) u False of
                  Inr v \<Rightarrow> valueResponse v
                | Inl msg \<Rightarrow> errorResponse msg)
       \<and> effects (snd (handleRead rt d e req s)) =
           effects s @
           [AuditLog ((''action'', str ''read'') # readFields u parsed @
                      [(''type'', str ''open''), (''result'', str ''allowed'')]),
            ProviderRead u False] @
           (case provider_read (provider d) u False of
              Inr v \<Rightarrow> []
            | Inl msg \<Rightarrow> [AuditLog [(''action'', str ''read_error''), (''uri'', str u),
                                      (''error'', str msg)]])
       \<and> pendingRequests (snd (handleRead rt d e req s)) = pendingRequests s
       \<and> cache (snd (handleRead rt d e req s)) = cache s"
proof -
  have run: "handleRead rt d e req s = openRead d u parsed s"
    using assms(1-4) by (rule handleRead_open)
  show ?thesis
    unfolding run
    by (simp add: openRead_def Let_def audit_log_def split: sum.splits)
qed

theorem open_takes_precedence_witness:
  "uri (readRequest ''op://Both/k/f'' None) = Some ''op://Both/k/f''
   \<and> parseUri (provider demoDaemon) ''op://Both/k/f'' =
       Inr (Some \<lparr>vault = ''Both'', item = ''k'', field = ''f''\<rparr>)
   \<and> toLowerCase demoRuntime ''Both'' \<in> OPEN_VAULTS demoRuntime demoDaemon
   \<and> toLowerCase demoRuntime ''Both'' \<in> GATED_VAULTS demoRuntime demoDaemon
   \<and> fst (handleRead demoRuntime demoDaemon demoEnv (readRequest ''op://Both/k/f'' None)
         emptyBroker) = Inr (valueResponse ''v'')
   \<and> pendingRequests (snd (handleRead demoRuntime demoDaemon demoEnv
         (readRequest ''op://Both/k/f'' None) emptyBroker)) = []"
proof -
  have b1: "uri (readRequest ''op://Both/k/f'' None) = Some ''op://Both/k/f''"
    by (simp add: readRequest_def)
  have b2: "''op://Both/k/f'' \<noteq> []"
    by simp
  have b3: "parseUri (provider demoDaemon) ''op://Both/k/f'' =
       Inr (Some \<lparr>vault = ''Both'', item = ''k'', field = ''f''\<rparr>)"
    by (simp add: demoDaemon_def demoProvider_def)
  have b4: "toLowerCase demoRuntime (vault \<lparr>vault = ''Both'', item = ''k'', field = ''f''\<rparr>) \<in> OPEN_VAULTS demoRuntime demoDaemon"
    by (simp add: demo_vaults demo_lower)
  have b5: "toLowerCase demoRuntime (vault \<lparr>vault = ''Both'', item = ''k'', field = ''f''\<rparr>) \<in> GATED_VAULTS demoRuntime demoDaemon"
    by (simp add: demo_vaults demo_lower)
  have rd: "provider_read (provider demoDaemon) ''op://Both/k/f'' False = Inr ''v''"
    by (simp add: demoDaemon_def demoProvider_def)
  have fresh: "pendingRequests emptyBroker = []"
    by (simp add: emptyBroker_def)
  show ?thesis
    using open_takes_precedence [OF b1 b2 b3 b4 b5, where e = demoEnv and s = emptyBroker,
        THEN conjunct2] b1 b3 b4 b5
    by (simp add: rd fresh)
qed


lemma getCached_disabled: "cacheTTL (config d) \<le> 0 \<Longrightarrow> getCached d now u s = (None, s)"
  by (simp add: getCached_def)

lemma setCache_disabled: "cacheTTL (config d) \<le> 0 \<Longrightarrow> setCache rt d now u v s = s"
  by (simp add: setCache_def)

lemma hits_gatedRead_disabled:
  assumes "cacheTTL (config d) \<le> 0"
  shows "cacheHits (effects (snd (gatedRead rt d e u parsed rsn s))) = cacheHits (effects s)"
proof (cases "truthy rsn")
  case False
  then show ?thesis by (simp add: gatedRead_def)
next
  case True
  show ?thesis
  proof (cases "matchesStandingApproval d (item parsed) rsn")
    case (Inl ex)
    then show ?thesis using True by (simp add: gatedRead_def)
  next
    case (Inr found)
    show ?thesis
    proof (cases found)
      case (Some sa)
      then show ?thesis using True Inr by (simp add: gatedRead_def hits_standingRead)
    next
      case None
      then show ?thesis
        using True Inr getCached_disabled [OF assms]
        by (simp add: gatedRead_def hits_approvalFlow)
    qed
  qed
qed

lemma hits_handleRead_disabled:
  assumes "cacheTTL (config d) \<le> 0"
  shows "cacheHits (effects (snd (handleRead rt d e req s))) = cacheHits (effects s)"
  using hits_gatedRead_disabled [OF assms]
  by (simp add: handleRead_def Let_def hits_openRead split: option.splits sum.splits)

text \<open>
  C6. With a cache TTL of zero or less a lookup returns nothing and leaves the state as it
  was, a store leaves the state as it was, and no request adds a \<open>cache_hit\<close> audit entry.
\<close>

theorem cache_disabled_without_ttl:
  assumes "cacheTTL (config d) \<le> 0"
  shows "getCached d now u s = (None, s)
       \<and> setCache rt d now u v s = s
       \<and> cacheHits (effects (snd (handleRequest rt d e req s))) = cacheHits (effects s)"
proof -
  have "cacheHits (effects (snd (handleRequest rt d e req s))) = cacheHits (effects s)"
    using hits_handleRead_disabled [OF assms] by (simp add: handleRequest_def)
  then show ?thesis
    using getCached_disabled [OF assms] setCache_disabled [OF assms] by simp
qed

theorem cache_disabled_without_ttl_witness:
  "cacheTTL (config demoDaemon) \<le> 0
   \<and> getCached demoDaemon 5 ''op://Sec/k/f'' cachedBroker = (None, cachedBroker)
   \<and> setCache demoRuntime demoDaemon 5 ''op://Sec/k/f'' ''new'' cachedBroker = cachedBroker
   \<and> cacheHits (effects (snd (handleRequest demoRuntime demoDaemon demoEnv
         (readRequest ''op://Sec/k/f'' (str ''check webhook'')) cachedBroker))) = []"
proof -
  have off: "cacheTTL (config demoDaemon) \<le> 0"
    by (simp add: demoDaemon_def)
  have fresh: "effects cachedBroker = []"
    by (simp add: cachedBroker_def)
  show ?thesis
    using cache_disabled_without_ttl [OF off, where now = 5 and u = "''op://Sec/k/f''"
        and s = cachedBroker and v = "''new''" and rt = demoRuntime and e = demoEnv
        and req = "readRequest ''op://Sec/k/f'' (str ''check webhook'')"] off
    by (simp add: fresh)
qed

text \<open>
  C8, as amended. The response to \<open>status\<close> has exactly the fields \<open>status\<close> (with the
  value \<open>running\<close>), \<open>pending\<close>, \<open>cacheSize\<close>, \<open>uptime\<close> (the whole seconds of the
  process uptime), \<open>channels\<close> (the channel names) and \<open>provider\<close> (the provider name), and
  the request changes nothing.
\<close>

theorem status_response_fields:
  assumes "action req = Some ''status''"
  shows "handleRequest rt d e req s =
          (Inr (JObject [(''status'', JString ''running''),
                         (''pending'', JNumber (of_nat (mapSize (pendingRequests s)))),
                         (''cacheSize'', JNumber (of_nat (mapSize (cache s)))),
                         (''uptime'', JNumber (of_int \<lfloor>processUptime e\<rfloor>)),
                         (''channels'', JArray (map (\<lambda>c. JString (channel_name c)) (channels d))),
                         (''provider'', JString (provider_name (provider d)))]), s)"
  using assms by (simp add: handleRequest_def)

theorem status_response_fields_witness:
  "action statusRequest = Some ''status''
   \<and> handleRequest demoRuntime demoDaemon demoEnv statusRequest emptyBroker =
       (Inr (JObject [(''status'', JString ''running''), (''pending'', JNumber 0),
                      (''cacheSize'', JNumber 0), (''uptime'', JNumber 12),
                      (''channels'', JArray [JString ''telegram'']),
                      (''provider'', JString ''onepassword'')]), emptyBroker)"
proof -
  have st: "action statusRequest = Some ''status''"
    by (simp add: statusRequest_def)
  show ?thesis
    using status_response_fields [OF st, of demoRuntime demoDaemon demoEnv emptyBroker] st
    by (simp add: emptyBroker_def demoDaemon_def demoEnv_def demoChannel_def demoProvider_def
          mapSize_def)
qed

text \<open>The response to \<open>status\<close> has no field \<open>uptimeSeconds\<close>.\<close>

theorem status_uptimeSeconds_counterexample:
  "fst (handleRequest demoRuntime demoDaemon demoEnv statusRequest emptyBroker) =
     Inr (JObject [(''status'', JString ''running''), (''pending'', JNumber 0),
                   (''cacheSize'', JNumber 0), (''uptime'', JNumber 12),
                   (''channels'', JArray [JString ''telegram'']),
                   (''provider'', JString ''onepassword'')])
   \<and> getProp (JObject [(''status'', JString ''running''), (''pending'', JNumber 0),
                   (''cacheSize'', JNumber 0), (''uptime'', JNumber 12),
                   (''channels'', JArray [JString ''telegram'']),
                   (''provider'', JString ''onepassword'')]) ''uptimeSeconds'' = Inr None"
  by (simp add: handleRequest_def statusRequest_def emptyBroker_def demoDaemon_def demoEnv_def
        demoChannel_def demoProvider_def mapSize_def)

section \<open>Properties of the local transport\<close>

lemma indexOf_None: "indexOf tx c = None \<longleftrightarrow> c \<notin> set tx"
  by (induction tx) auto

lemma indexOf_Some:
  "indexOf tx c = Some i \<Longrightarrow> tx = take i tx @ c # drop (Suc i) tx \<and> c \<notin> set (take i tx)"
proof (induction tx arbitrary: i)
  case Nil
  then show ?case by simp
next
  case (Cons x xs)
  show ?case
  proof (cases "x = c")
    case True
    then show ?thesis using Cons.prems by simp
  next
    case False
    then obtain j where j: "indexOf xs c = Some j" "i = Suc j"
      using Cons.prems by auto
    then show ?thesis
      using Cons.IH [OF j(1)] False by simp
  qed
qed

lemma linesOf_no_newline:
  "newline \<notin> set a \<Longrightarrow> linesOf cur (a @ b) = linesOf (cur @ a) b"
  by (induction a arbitrary: cur) auto

lemma restOf_no_newline:
  "newline \<notin> set a \<Longrightarrow> restOf cur (a @ b) = restOf (cur @ a) b"
  by (induction a arbitrary: cur) auto

lemma linesOf_append: "linesOf cur (a @ b) = linesOf cur a @ linesOf (restOf cur a) b"
  by (induction a arbitrary: cur) auto

lemma restOf_append: "restOf cur (a @ b) = restOf (restOf cur a) b"
  by (induction a arbitrary: cur) auto

lemma restOf_clean: "newline \<notin> set cur \<Longrightarrow> newline \<notin> set (restOf cur tx)"
  by (induction tx arbitrary: cur) auto

lemma feedLine_buf: "feedLine rt l (c\<lparr>buf := b\<rparr>) = (feedLine rt l c)\<lparr>buf := b\<rparr>"
  by (simp add: feedLine_def split: option.splits)

lemma feedLines_buf: "feedLines rt ls (c\<lparr>buf := b\<rparr>) = (feedLines rt ls c)\<lparr>buf := b\<rparr>"
  by (induction ls arbitrary: c) (simp_all add: feedLine_buf)

lemma buf_feedLine: "buf (feedLine rt l c) = buf c"
  by (simp add: feedLine_def split: option.splits)

lemma drain_step:
  "drainLines rt c =
     (case indexOf (buf c) newline of
        None \<Rightarrow> c
      | Some idx \<Rightarrow> drainLines rt (feedLine rt (take idx (buf c)) (c\<lparr>buf := drop (idx + 1) (buf c)\<rparr>)))"
  by (subst drainLines.simps) (simp add: feedLine_def Let_def split: option.splits)

lemma drain_feeds:
  "drainLines rt c = (feedLines rt (linesOf [] (buf c)) c)\<lparr>buf := restOf [] (buf c)\<rparr>"
proof (induction "length (buf c)" arbitrary: c rule: less_induct)
  case less
  show ?case
  proof (cases "indexOf (buf c) newline")
    case None
    then have "newline \<notin> set (buf c)"
      by (simp add: indexOf_None)
    then have "linesOf [] (buf c) = []" and "restOf [] (buf c) = buf c"
      using linesOf_no_newline [of "buf c" "[]" "[]"] restOf_no_newline [of "buf c" "[]" "[]"]
      by simp_all
    then show ?thesis
      using None by (simp add: drain_step [of rt c])
  next
    case (Some idx)
    define line where "line = take idx (buf c)"
    define rest where "rest = drop (Suc idx) (buf c)"
    have split: "buf c = line @ newline # rest" and clean: "newline \<notin> set line"
      using indexOf_Some [OF Some] by (simp_all add: line_def rest_def)
    have ls: "linesOf [] (buf c) = line # linesOf [] rest"
      using linesOf_no_newline [OF clean, of "[]" "newline # rest"] by (simp add: split)
    have rs: "restOf [] (buf c) = restOf [] rest"
      using restOf_no_newline [OF clean, of "[]" "newline # rest"] by (simp add: split)
    define c1 where "c1 = feedLine rt line (c\<lparr>buf := rest\<rparr>)"
    have b1: "buf c1 = rest"
      by (simp add: c1_def buf_feedLine)
    have shorter: "length (buf c1) < length (buf c)"
      by (simp add: b1 split)
    have "drainLines rt c = drainLines rt c1"
      using Some by (simp add: drain_step [of rt c] c1_def line_def rest_def)
    also have "\<dots> = (feedLines rt (linesOf [] rest) c1)\<lparr>buf := restOf [] rest\<rparr>"
      using less [OF shorter] by (simp add: b1)
    also have "\<dots> = (feedLines rt (line # linesOf [] rest) c)\<lparr>buf := restOf [] rest\<rparr>"
      by (simp add: c1_def feedLine_buf feedLines_buf)
    finally show ?thesis
      by (simp add: ls rs)
  qed
qed

lemma onData_feeds:
  "onData rt chunk c =
     (feedLines rt (linesOf [] (buf c @ chunk)) c)\<lparr>buf := restOf [] (buf c @ chunk)\<rparr>"
  by (simp add: onData_def drain_feeds feedLines_buf)


lemma accounted_mono: "accounted rt S ls c \<Longrightarrow> S \<subseteq> S' \<Longrightarrow> accounted rt S' ls c"
  unfolding accounted_def by (fastforce split: prod.splits)

lemma accounted_buf: "accounted rt S ls (c\<lparr>buf := b\<rparr>) = accounted rt S ls c"
  by (simp add: accounted_def)

lemma accounted_tag_bound:
  assumes "accounted rt S ls c"
  shows "(k, resp) \<in> set (written c) \<Longrightarrow> k < length ls"
    and "(k, req) \<in> set (inflight c) \<Longrightarrow> k < length ls"
proof -
  have tags: "set (map fst (written c) @ map fst (inflight c)) = {0..<length ls}"
    using assms by (simp add: accounted_def)
  show "k < length ls" if "(k, resp) \<in> set (written c)"
  proof -
    have "k \<in> set (map fst (written c) @ map fst (inflight c))"
      using that by force
    then show ?thesis
      unfolding tags by simp
  qed
  show "k < length ls" if "(k, req) \<in> set (inflight c)"
  proof -
    have "k \<in> set (map fst (written c) @ map fst (inflight c))"
      using that by force
    then show ?thesis
      unfolding tags by simp
  qed
qed

lemma accounted_extend:
  assumes acc: "accounted rt S ls c"
  shows "(\<forall>(k, resp) \<in> set (written c).
             (JSON_parse rt ((ls @ [l]) ! k) = None \<and> resp = errorResponse ''Invalid JSON'')
           \<or> ((\<exists>req. JSON_parse rt ((ls @ [l]) ! k) = Some req)
              \<and> (\<exists>out. (k, out) \<in> S \<and> resp = reply out)))"
    and "(\<forall>(k, req) \<in> set (inflight c). JSON_parse rt ((ls @ [l]) ! k) = Some req)"
proof -
  have w: "(JSON_parse rt (ls ! k) = None \<and> resp = errorResponse ''Invalid JSON'')
           \<or> ((\<exists>req. JSON_parse rt (ls ! k) = Some req)
              \<and> (\<exists>out. (k, out) \<in> S \<and> resp = reply out))"
    if "(k, resp) \<in> set (written c)" for k resp
    using acc that unfolding accounted_def by blast
  have f: "JSON_parse rt (ls ! k) = Some req" if "(k, req) \<in> set (inflight c)" for k req
    using acc that unfolding accounted_def by blast
  show "(\<forall>(k, resp) \<in> set (written c).
             (JSON_parse rt ((ls @ [l]) ! k) = None \<and> resp = errorResponse ''Invalid JSON'')
           \<or> ((\<exists>req. JSON_parse rt ((ls @ [l]) ! k) = Some req)
              \<and> (\<exists>out. (k, out) \<in> S \<and> resp = reply out)))"
  proof (clarify)
    fix k resp
    assume in_w: "(k, resp) \<in> set (written c)"
      and other: "\<not> ((\<exists>req. JSON_parse rt ((ls @ [l]) ! k) = Some req)
              \<and> (\<exists>out. (k, out) \<in> S \<and> resp = reply out))"
    have "k < length ls"
      using accounted_tag_bound(1) [OF acc in_w] .
    then have same: "(ls @ [l]) ! k = ls ! k"
      by (simp add: nth_append)
    show "JSON_parse rt ((ls @ [l]) ! k) = None \<and> resp = errorResponse ''Invalid JSON''"
      using w [OF in_w] other unfolding same by blast
  qed
  show "(\<forall>(k, req) \<in> set (inflight c). JSON_parse rt ((ls @ [l]) ! k) = Some req)"
  proof (clarify)
    fix k req
    assume in_f: "(k, req) \<in> set (inflight c)"
    have "k < length ls"
      using accounted_tag_bound(2) [OF acc in_f] .
    then have same: "(ls @ [l]) ! k = ls ! k"
      by (simp add: nth_append)
    show "JSON_parse rt ((ls @ [l]) ! k) = Some req"
      using f [OF in_f] unfolding same .
  qed
qed

lemma accounted_feedLine:
  assumes acc: "accounted rt S ls c"
  shows "accounted rt S (ls @ filter (\<lambda>l. trim rt l \<noteq> []) [l]) (feedLine rt l c)"
proof (cases "trim rt l = []")
  case True
  then show ?thesis
    using acc by (simp add: feedLine_def)
next
  case False
  have r: "received c = length ls"
    and d: "distinct (map fst (written c) @ map fst (inflight c))"
    and t: "set (map fst (written c) @ map fst (inflight c)) = {0..<length ls}"
    using acc by (simp_all add: accounted_def)
  have fresh: "length ls \<notin> set (map fst (written c) @ map fst (inflight c))"
    unfolding t by simp
  note ext = accounted_extend [OF acc, of l]
  show ?thesis
  proof (cases "JSON_parse rt l")
    case None
    define c' where "c' = c\<lparr>written := written c @ [(received c, errorResponse ''Invalid JSON'')],
                       received := received c + 1\<rparr>"
    have fl: "feedLine rt l c = c'"
      using False None by (simp add: feedLine_def c'_def)
    have a1: "received c' = length (ls @ [l])"
      by (simp add: c'_def r)
    have a2: "distinct (map fst (written c') @ map fst (inflight c'))"
      using d fresh by (auto simp: c'_def r)
    have a3: "set (map fst (written c') @ map fst (inflight c')) = {0..<length (ls @ [l])}"
      using t by (auto simp: c'_def r)
    have a4: "\<forall>(k, resp) \<in> set (written c').
             (JSON_parse rt ((ls @ [l]) ! k) = None \<and> resp = errorResponse ''Invalid JSON'')
           \<or> ((\<exists>req. JSON_parse rt ((ls @ [l]) ! k) = Some req)
              \<and> (\<exists>out. (k, out) \<in> S \<and> resp = reply out))"
      using ext(1) None by (auto simp: c'_def r)
    have a5: "\<forall>(k, req) \<in> set (inflight c'). JSON_parse rt ((ls @ [l]) ! k) = Some req"
      using ext(2) by (simp add: c'_def)
    show ?thesis
      using False a1 a2 a3 a4 a5 unfolding fl accounted_def by simp
  next
    case (Some req)
    define c' where "c' = c\<lparr>inflight := inflight c @ [(received c, req)],
                          received := received c + 1\<rparr>"
    have fl: "feedLine rt l c = c'"
      using False Some by (simp add: feedLine_def c'_def)
    have a1: "received c' = length (ls @ [l])"
      by (simp add: c'_def r)
    have a2: "distinct (map fst (written c') @ map fst (inflight c'))"
      using d fresh by (auto simp: c'_def r)
    have a3: "set (map fst (written c') @ map fst (inflight c')) = {0..<length (ls @ [l])}"
      using t by (auto simp: c'_def r)
    have a4: "\<forall>(k, resp) \<in> set (written c').
             (JSON_parse rt ((ls @ [l]) ! k) = None \<and> resp = errorResponse ''Invalid JSON'')
           \<or> ((\<exists>req. JSON_parse rt ((ls @ [l]) ! k) = Some req)
              \<and> (\<exists>out. (k, out) \<in> S \<and> resp = reply out))"
      using ext(1) by (simp add: c'_def)
    have a5: "\<forall>(k, req) \<in> set (inflight c'). JSON_parse rt ((ls @ [l]) ! k) = Some req"
      using ext(2) Some by (auto simp: c'_def r)
    show ?thesis
      using False a1 a2 a3 a4 a5 unfolding fl accounted_def by simp
  qed
qed

lemma accounted_feedLines:
  "accounted rt S ls c \<Longrightarrow>
   accounted rt S (ls @ filter (\<lambda>l. trim rt l \<noteq> []) new) (feedLines rt new c)"
proof (induction new arbitrary: ls c)
  case Nil
  then show ?case by simp
next
  case (Cons l new)
  have "accounted rt S (ls @ filter (\<lambda>l. trim rt l \<noteq> []) [l]) (feedLine rt l c)"
    using Cons.prems by (rule accounted_feedLine)
  from Cons.IH [OF this] show ?case
    by (cases "trim rt l = []") simp_all
qed


lemma map_fst_delete: "map fst (AList.delete k xs) = removeAll k (map fst xs)"
  by (induction xs) auto

lemma accounted_settle:
  assumes acc: "accounted rt S ls c"
  shows "accounted rt (insert (k, out) S) ls (settle k out c)"
proof (cases "map_of (inflight c) k")
  case None
  then have "settle k out c = c"
    by (simp add: settle_def)
  then show ?thesis
    using accounted_mono [OF acc, of "insert (k, out) S"] by auto
next
  case (Some req)
  have member: "(k, req) \<in> set (inflight c)"
    using Some by (rule map_of_SomeD)
  define c' where "c' = c\<lparr>inflight := AList.delete k (inflight c),
                          written := written c @ [(k, reply out)]\<rparr>"
  have st: "settle k out c = c'"
    using Some by (simp add: settle_def c'_def reply_def)
  have r: "received c = length ls"
    and d: "distinct (map fst (written c) @ map fst (inflight c))"
    and t: "set (map fst (written c) @ map fst (inflight c)) = {0..<length ls}"
    and w: "\<forall>(k, resp) \<in> set (written c).
             (JSON_parse rt (ls ! k) = None \<and> resp = errorResponse ''Invalid JSON'')
           \<or> ((\<exists>req. JSON_parse rt (ls ! k) = Some req)
              \<and> (\<exists>out. (k, out) \<in> S \<and> resp = reply out))"
    and f: "\<forall>(k, req) \<in> set (inflight c). JSON_parse rt (ls ! k) = Some req"
    using acc by (simp_all add: accounted_def)
  have kin: "k \<in> set (map fst (inflight c))"
    using member by force
  have a1: "received c' = length ls"
    by (simp add: c'_def r)
  have a2: "distinct (map fst (written c') @ map fst (inflight c'))"
    using d kin by (auto simp: c'_def map_fst_delete distinct_removeAll)
  have a3: "set (map fst (written c') @ map fst (inflight c')) = {0..<length ls}"
    using t kin by (auto simp: c'_def map_fst_delete)
  have parsed: "JSON_parse rt (ls ! k) = Some req"
    using f member by blast
  have a4: "\<forall>(j, resp) \<in> set (written c').
             (JSON_parse rt (ls ! j) = None \<and> resp = errorResponse ''Invalid JSON'')
           \<or> ((\<exists>req. JSON_parse rt (ls ! j) = Some req)
              \<and> (\<exists>out'. (j, out') \<in> insert (k, out) S \<and> resp = reply out'))"
    using w parsed by (fastforce simp: c'_def)
  have sub: "set (AList.delete k (inflight c)) \<subseteq> set (inflight c)"
    by (auto simp: AList.delete_eq)
  have a5: "\<forall>(j, req) \<in> set (inflight c'). JSON_parse rt (ls ! j) = Some req"
    using f sub by (auto simp: c'_def)
  show ?thesis
    using a1 a2 a3 a4 a5 unfolding st accounted_def by simp
qed

lemma chunksOf_append: "chunksOf (xs @ ys) = chunksOf xs @ chunksOf ys"
  by (induction xs rule: chunksOf.induct) auto

lemma settlements_append: "settlements (xs @ ys) = settlements xs @ settlements ys"
  by (induction xs rule: settlements.induct) auto

lemma step_accounted:
  assumes b: "buf c = restOf [] (chunksOf past)"
    and acc: "accounted rt (set (settlements past)) (requestLines rt (chunksOf past)) c"
  shows "buf (step rt ev c) = restOf [] (chunksOf (past @ [ev]))"
    and "accounted rt (set (settlements (past @ [ev]))) (requestLines rt (chunksOf (past @ [ev])))
           (step rt ev c)"
proof -
  show "buf (step rt ev c) = restOf [] (chunksOf (past @ [ev]))"
  proof (cases ev)
    case (Data chunk)
    have clean: "newline \<notin> set (buf c)"
      unfolding b by (rule restOf_clean) simp
    show ?thesis
      using restOf_no_newline [OF clean, of "[]" chunk]
      by (simp add: Data onData_feeds chunksOf_append restOf_append b)
  next
    case (Settle k out)
    then show ?thesis
      by (simp add: settle_def chunksOf_append b split: option.splits)
  qed
  show "accounted rt (set (settlements (past @ [ev]))) (requestLines rt (chunksOf (past @ [ev])))
           (step rt ev c)"
  proof (cases ev)
    case (Data chunk)
    have clean: "newline \<notin> set (buf c)"
      unfolding b by (rule restOf_clean) simp
    have new: "linesOf [] (buf c @ chunk) = linesOf (restOf [] (chunksOf past)) chunk"
      using linesOf_no_newline [OF clean, of "[]" chunk] by (simp add: b)
    have ls: "requestLines rt (chunksOf (past @ [ev])) =
        requestLines rt (chunksOf past) @
        filter (\<lambda>l. trim rt l \<noteq> []) (linesOf (restOf [] (chunksOf past)) chunk)"
      by (simp add: Data requestLines_def chunksOf_append linesOf_append)
    have "accounted rt (set (settlements past)) (requestLines rt (chunksOf (past @ [ev])))
        (feedLines rt (linesOf [] (buf c @ chunk)) c)"
      unfolding ls new using acc by (rule accounted_feedLines)
    then show ?thesis
      by (simp add: Data onData_feeds accounted_buf settlements_append)
  next
    case (Settle k out)
    show ?thesis
      using accounted_settle [OF acc, of k out]
      by (simp add: Settle settlements_append chunksOf_append)
  qed
qed

lemma run_accounted:
  "buf c = restOf [] (chunksOf past) \<Longrightarrow>
   accounted rt (set (settlements past)) (requestLines rt (chunksOf past)) c \<Longrightarrow>
   accounted rt (set (settlements (past @ evs))) (requestLines rt (chunksOf (past @ evs)))
     (run rt evs c)"
proof (induction evs arbitrary: past c)
  case Nil
  then show ?case by simp
next
  case (Cons ev evs)
  have "accounted rt (set (settlements ((past @ [ev]) @ evs)))
          (requestLines rt (chunksOf ((past @ [ev]) @ evs))) (run rt evs (step rt ev c))"
    using step_accounted [OF Cons.prems, of ev] by (rule Cons.IH)
  then show ?case
    by simp
qed

lemma newConn_accounted: "accounted rt {} [] newConn"
  by (simp add: accounted_def newConn_def)


lemma inOrder_buf: "inOrder (c\<lparr>buf := b\<rparr>) = inOrder c"
  by (simp add: inOrder_def)

lemma inOrder_feedLine:
  assumes "inOrder c"
    and "if trim rt l \<noteq> [] \<and> JSON_parse rt l = None then inflight c = [] else True"
  shows "inOrder (feedLine rt l c)"
proof (cases "trim rt l = []")
  case True
  then show ?thesis
    using assms(1) by (simp add: feedLine_def)
next
  case False
  show ?thesis
  proof (cases "JSON_parse rt l")
    case None
    then have "inflight c = []"
      using False assms(2) by simp
    then show ?thesis
      using assms(1) False None by (simp add: feedLine_def inOrder_def)
  next
    case (Some req)
    then show ?thesis
      using assms(1) False by (simp add: feedLine_def inOrder_def flip: append_assoc)
  qed
qed

lemma inOrder_feedLines: "inOrder c \<Longrightarrow> linesInTurn rt ls c \<Longrightarrow> inOrder (feedLines rt ls c)"
proof (induction ls arbitrary: c)
  case Nil
  then show ?case by simp
next
  case (Cons l ls)
  have "inOrder (feedLine rt l c)"
    using Cons.prems by (intro inOrder_feedLine) simp_all
  then show ?case
    using Cons.prems(2) by (simp add: Cons.IH)
qed

lemma inOrder_settle:
  assumes ord: "inOrder c" and head: "inflight c = (k, req) # rest"
  shows "inOrder (settle k out c)"
proof -
  have tags: "map fst (written c) @ k # map fst rest = [0..<received c]"
    using ord head by (simp add: inOrder_def)
  have "distinct (map fst (written c) @ k # map fst rest)"
    unfolding tags by simp
  then have "k \<notin> fst ` set rest"
    by auto
  then have gone: "AList.delete k rest = rest"
    by simp
  show ?thesis
    using tags by (simp add: settle_def head gone inOrder_def)
qed

lemma inOrder_step: "inOrder c \<Longrightarrow> inTurn rt ev c \<Longrightarrow> inOrder (step rt ev c)"
proof (cases ev)
  case (Data chunk)
  assume "inOrder c" and "inTurn rt ev c"
  then show ?thesis
    by (simp add: Data onData_feeds inOrder_buf inOrder_feedLines)
next
  case (Settle k out)
  assume ord: "inOrder c" and turn: "inTurn rt ev c"
  show ?thesis
  proof (cases "map_of (inflight c) k")
    case None
    then show ?thesis
      using ord by (simp add: Settle settle_def)
  next
    case (Some req)
    then have "map fst (take 1 (inflight c)) = [k]"
      using turn by (simp add: Settle)
    then obtain req' rest where "inflight c = (k, req') # rest"
      by (cases "inflight c") auto
    with ord show ?thesis
      by (simp add: Settle inOrder_settle)
  qed
qed

lemma inOrder_run: "inOrder c \<Longrightarrow> allInTurn rt evs c \<Longrightarrow> inOrder (run rt evs c)"
  by (induction evs arbitrary: c) (simp_all add: inOrder_step)

lemma settlements_set: "(k, out) \<in> set (settlements evs) \<longleftrightarrow> Settle k out \<in> set evs"
  by (induction evs rule: settlements.induct) auto

lemma overtaken_buf: "overtaken (c\<lparr>buf := b\<rparr>) = overtaken c"
  by (simp add: overtaken_def)

lemma overtaken_feedLine: "overtaken c \<Longrightarrow> overtaken (feedLine rt l c)"
  unfolding overtaken_def feedLine_def
  by (auto simp: sorted_append split: option.splits)

lemma overtaken_feedLines: "overtaken c \<Longrightarrow> overtaken (feedLines rt ls c)"
  by (induction ls arbitrary: c) (simp_all add: overtaken_feedLine)

lemma overtaken_settle:
  assumes "overtaken c"
  shows "overtaken (settle k out c)"
proof (cases "map_of (inflight c) k")
  case None
  then show ?thesis
    using assms by (simp add: settle_def)
next
  case (Some req)
  have st: "settle k out c =
      c\<lparr>inflight := AList.delete k (inflight c), written := written c @ [(k, reply out)]\<rparr>"
    using Some by (simp add: settle_def)
  show ?thesis
  proof (cases "sorted (map fst (written c))")
    case False
    then show ?thesis
      by (simp add: st overtaken_def sorted_append)
  next
    case True
    then obtain w f where w: "w \<in> set (map fst (written c))"
      and f: "f \<in> set (map fst (inflight c))" and less: "f < w"
      using assms by (auto simp: overtaken_def)
    show ?thesis
    proof (cases "f = k")
      case True
      then have "\<not> sorted (map fst (written c) @ [k])"
        using w less by (force simp: sorted_append)
      then show ?thesis
        by (simp add: st overtaken_def)
    next
      case False
      then have "f \<in> set (map fst (AList.delete k (inflight c)))"
        using f by (simp add: map_fst_delete)
      then show ?thesis
        using w less unfolding st overtaken_def by auto
    qed
  qed
qed

lemma overtaken_step: "overtaken c \<Longrightarrow> overtaken (step rt ev c)"
  by (cases ev) (simp_all add: onData_feeds overtaken_buf overtaken_feedLines overtaken_settle)

lemma overtaken_run: "overtaken c \<Longrightarrow> overtaken (run rt evs c)"
  by (induction evs arbitrary: c) (simp_all add: overtaken_step)

lemma inOrder_bound:
  assumes "inOrder c" and "f \<in> set (map fst (inflight c))"
  shows "f < received c"
proof -
  have "f \<in> set (map fst (written c) @ map fst (inflight c))"
    using assms(2) by simp
  then have "f \<in> set [0..<received c]"
    using assms(1) unfolding inOrder_def by simp
  then show ?thesis
    by simp
qed

lemma out_of_turn_settle:
  assumes ord: "inOrder c" and turn: "\<not> inTurn rt (Settle k out) c"
  shows "overtaken (settle k out c)"
proof -
  obtain req where found: "map_of (inflight c) k = Some req"
    and nothead: "map fst (take 1 (inflight c)) \<noteq> [k]"
    using turn by (auto split: option.splits)
  obtain j rj rest where fl: "inflight c = (j, rj) # rest"
    using found by (cases "inflight c") auto
  have jk: "j \<noteq> k"
    using nothead fl by simp
  then have kin: "k \<in> set (map fst rest)"
    using found fl map_of_SomeD [of rest k req] by (force split: if_splits)
  have "sorted (map fst (written c) @ j # map fst rest)"
    and "distinct (map fst (written c) @ j # map fst rest)"
    using ord unfolding inOrder_def fl by (metis list.simps(9) fst_conv sorted_upt distinct_upt)+
  then have "j < k"
    using kin jk by (auto simp: sorted_append le_less)
  have st: "settle k out c =
      c\<lparr>inflight := AList.delete k (inflight c), written := written c @ [(k, reply out)]\<rparr>"
    using found by (simp add: settle_def)
  have "j \<in> set (map fst (AList.delete k (inflight c)))"
    using jk by (simp add: fl)
  then show ?thesis
    using \<open>j < k\<close> unfolding st overtaken_def by auto
qed

lemma out_of_turn_lines:
  "inOrder c \<Longrightarrow> \<not> linesInTurn rt ls c \<Longrightarrow> overtaken (feedLines rt ls c)"
proof (induction ls arbitrary: c)
  case Nil
  then show ?case by simp
next
  case (Cons l ls)
  show ?case
  proof (cases "if trim rt l \<noteq> [] \<and> JSON_parse rt l = None then inflight c = [] else True")
    case True
    then have "inOrder (feedLine rt l c)"
      using Cons.prems(1) by (intro inOrder_feedLine)
    moreover have "\<not> linesInTurn rt ls (feedLine rt l c)"
      using Cons.prems(2) True by simp
    ultimately show ?thesis
      using Cons.IH by simp
  next
    case False
    then have nb: "trim rt l \<noteq> []" and bad: "JSON_parse rt l = None" and busy: "inflight c \<noteq> []"
      by (auto split: if_splits)
    obtain f where f: "f \<in> set (map fst (inflight c))"
      using busy by (cases "inflight c") auto
    have "f < received c"
      using Cons.prems(1) f by (rule inOrder_bound)
    then have "overtaken (feedLine rt l c)"
      using f nb bad unfolding overtaken_def feedLine_def by auto
    then show ?thesis
      by (simp add: overtaken_feedLines)
  qed
qed

lemma out_of_turn_step:
  assumes "inOrder c" and "\<not> inTurn rt ev c"
  shows "overtaken (step rt ev c)"
proof (cases ev)
  case (Data chunk)
  then show ?thesis
    using assms by (simp add: onData_feeds overtaken_buf out_of_turn_lines)
next
  case (Settle k out)
  then show ?thesis
    using assms out_of_turn_settle [of c rt k out] by simp
qed

lemma out_of_turn_run: "inOrder c \<Longrightarrow> \<not> allInTurn rt evs c \<Longrightarrow> overtaken (run rt evs c)"
proof (induction evs arbitrary: c)
  case Nil
  then show ?case by simp
next
  case (Cons ev evs)
  show ?case
  proof (cases "inTurn rt ev c")
    case True
    then have "inOrder (step rt ev c)" and "\<not> allInTurn rt evs (step rt ev c)"
      using Cons.prems by (simp_all add: inOrder_step)
    then show ?thesis
      using Cons.IH by simp
  next
    case False
    then have "overtaken (step rt ev c)"
      using Cons.prems(1) by (intro out_of_turn_step)
    then show ?thesis
      by (simp add: overtaken_run)
  qed
qed

lemma overtaken_complete:
  "overtaken c \<Longrightarrow> inflight c = [] \<Longrightarrow> \<not> responsesInRequestOrder c"
  by (simp add: overtaken_def responsesInRequestOrder_def)

lemma in_order_only_in_turn:
  assumes "inflight (run rt evs newConn) = []" and "responsesInRequestOrder (run rt evs newConn)"
  shows "allInTurn rt evs newConn"
proof (rule ccontr)
  assume "\<not> allInTurn rt evs newConn"
  moreover have "inOrder newConn"
    by (simp add: inOrder_def newConn_def)
  ultimately have "overtaken (run rt evs newConn)"
    by (intro out_of_turn_run)
  then show False
    using assms overtaken_complete by blast
qed

text \<open>
  C7, as amended. Whatever the chunks and whenever the promises settle: every line received
  that is not blank is a request, numbered in the order of receipt; each request has been
  answered exactly once or is still in flight; the answer to a line that is no JSON is the
  \<open>Invalid JSON\<close> error, the answer to any other request is the result or the error
  message of its handler's promise. The responses are written as they fall due, and when
  every event comes in turn (each promise settles while no older request is in flight, and
  no line that is no JSON is read while a request is in flight) they are written in the
  order in which the requests were received. Once every request is answered, that is the
  only way: if the responses are in the order of the requests, every event came in turn.
  A promise that settles while its request is in flight has its reply written then and
  there, and the request is in flight no more.
\<close>

theorem responses_in_completion_order:
  "let c = run rt evs newConn; ls = requestLines rt (chunksOf evs) in
     received c = length ls
   \<and> distinct (map fst (written c) @ map fst (inflight c))
   \<and> set (map fst (written c) @ map fst (inflight c)) = {0..<length ls}
   \<and> (\<forall>(k, resp) \<in> set (written c).
          (JSON_parse rt (ls ! k) = None \<and> resp = errorResponse ''Invalid JSON'')
        \<or> ((\<exists>req. JSON_parse rt (ls ! k) = Some req)
           \<and> (\<exists>out. Settle k out \<in> set evs \<and> resp = reply out)))
   \<and> (\<forall>(k, req) \<in> set (inflight c). JSON_parse rt (ls ! k) = Some req)
   \<and> (allInTurn rt evs newConn \<longrightarrow>
         responsesInRequestOrder c
       \<and> map fst (written c) @ map fst (inflight c) = [0..<received c])
   \<and> (inflight c = [] \<and> responsesInRequestOrder c \<longrightarrow> allInTurn rt evs newConn)
   \<and> (map_of (inflight c0) k0 = Some req0 \<longrightarrow>
         written (step rt (Settle k0 out0) c0) = written c0 @ [(k0, reply out0)]
       \<and> map_of (inflight (step rt (Settle k0 out0) c0)) k0 = None)"
proof -
  have start: "buf newConn = restOf [] (chunksOf [])"
    by (simp add: newConn_def)
  have "accounted rt (set (settlements ([] @ evs))) (requestLines rt (chunksOf ([] @ evs)))
          (run rt evs newConn)"
    using start by (rule run_accounted) (simp add: newConn_accounted requestLines_def)
  then have acc: "accounted rt (set (settlements evs)) (requestLines rt (chunksOf evs))
          (run rt evs newConn)"
    by simp
  have order: "responsesInRequestOrder (run rt evs newConn)
       \<and> map fst (written (run rt evs newConn)) @ map fst (inflight (run rt evs newConn)) =
           [0..<received (run rt evs newConn)]"
    if turn: "allInTurn rt evs newConn"
  proof -
    have "inOrder newConn"
      by (simp add: inOrder_def newConn_def)
    then have ord: "inOrder (run rt evs newConn)"
      using turn by (rule inOrder_run)
    then have "sorted (map fst (written (run rt evs newConn)) @
        map fst (inflight (run rt evs newConn)))"
      by (simp add: inOrder_def)
    then have "sorted (map fst (written (run rt evs newConn)))"
      by (simp add: sorted_append)
    then show ?thesis
      using ord by (simp add: responsesInRequestOrder_def inOrder_def)
  qed
  have only: "allInTurn rt evs newConn"
    if "inflight (run rt evs newConn) = []" and "responsesInRequestOrder (run rt evs newConn)"
    using that by (rule in_order_only_in_turn)
  have due: "written (step rt (Settle k0 out0) c0) = written c0 @ [(k0, reply out0)]
       \<and> map_of (inflight (step rt (Settle k0 out0) c0)) k0 = None"
    if "map_of (inflight c0) k0 = Some req0"
    using that by (simp add: settle_def)
  show ?thesis
    using acc order only due unfolding Let_def accounted_def settlements_set by blast
qed

theorem responses_in_completion_order_witness:
  "allInTurn demoRuntime demoEvents newConn
   \<and> inflight (run demoRuntime demoEvents newConn) = []
   \<and> responsesInRequestOrder (run demoRuntime demoEvents newConn)
   \<and> received (run demoRuntime demoEvents newConn) =
       length (requestLines demoRuntime (chunksOf demoEvents))
   \<and> map fst (written (run demoRuntime demoEvents newConn)) @
       map fst (inflight (run demoRuntime demoEvents newConn)) =
       [0..<received (run demoRuntime demoEvents newConn)]
   \<and> map_of (inflight (run demoRuntime [Data (pingLine @ [newline])] newConn)) 0 =
       Some (JObject [(''action'', JString ''ping'')])
   \<and> written (step demoRuntime (Settle 0 (Fulfilled (pong 0)))
         (run demoRuntime [Data (pingLine @ [newline])] newConn)) =
       written (run demoRuntime [Data (pingLine @ [newline])] newConn) @
       [(0, reply (Fulfilled (pong 0)))]"
proof -
  have flying: "map_of (inflight (run demoRuntime [Data (pingLine @ [newline])] newConn)) 0 =
       Some (JObject [(''action'', JString ''ping'')])"
    by (simp add: onData_feeds feedLine_def newConn_def newline_def pingLine_def demoRuntime_def
          demoParse_def asciiTrim_def asciiWhitespace_def)
  have turn: "allInTurn demoRuntime demoEvents newConn"
    by (simp add: demoEvents_def onData_feeds settle_def feedLine_def newConn_def newline_def
          readLine_def pingLine_def demoRuntime_def demoParse_def asciiTrim_def
          asciiWhitespace_def)
  have answered: "inflight (run demoRuntime demoEvents newConn) = []"
    by (simp add: demoEvents_def onData_feeds settle_def feedLine_def newConn_def newline_def
          readLine_def pingLine_def demoRuntime_def demoParse_def asciiTrim_def
          asciiWhitespace_def)
  note inst = responses_in_completion_order
    [where rt = demoRuntime and evs = demoEvents
       and ?c0.0 = "run demoRuntime [Data (pingLine @ [newline])] newConn"
       and ?k0.0 = 0 and ?req0.0 = "JObject [(''action'', JString ''ping'')]"
       and ?out0.0 = "Fulfilled (pong 0)", unfolded Let_def]
  show ?thesis
    using inst turn answered flying by blast
qed

text \<open>
  Two requests in one chunk: a read of a gated secret, which waits for the operator, and a
  ping, which does not. The ping is answered first. And a line that is no JSON behind a
  ping in one chunk: its error is written inside the loop, before the ping's promise
  callback runs.
\<close>

theorem pipelined_responses_counterexample:
  \<open>map fst (written (run demoRuntime
       [Data (readLine @ [newline] @ pingLine @ [newline]),
        Settle 1 (Fulfilled (pong 1)),
        Settle 0 (Fulfilled (valueResponse ''v''))] newConn)) = [1, 0]
   \<and> \<not> responsesInRequestOrder (run demoRuntime
       [Data (readLine @ [newline] @ pingLine @ [newline]),
        Settle 1 (Fulfilled (pong 1)),
        Settle 0 (Fulfilled (valueResponse ''v''))] newConn)
   \<and> written (run demoRuntime
       [Data (pingLine @ [newline] @ ''{"appro'' @ [newline]),
        Settle 0 (Fulfilled (pong 0))] newConn) =
       [(1, errorResponse ''Invalid JSON''), (0, pong 0)]\<close>
  by (simp add: onData_def drainLines.simps settle_def reply_def newConn_def newline_def readLine_def
        pingLine_def demoRuntime_def demoParse_def asciiTrim_def asciiWhitespace_def
        responsesInRequestOrder_def Let_def)

end
